theory Spec2Isabelle
  imports Main "HOL-Library.Sublist"
begin

section \<open>JavaScript strings\<close>

text \<open>
  A JavaScript string is modelled as a \<^typ>\<open>string\<close>: a list of code units, each below
  256 (the Latin-1 range).  On that range the functions below are the ones of the language:
  \<open>toLowerCase\<close> maps \<open>A-Z\<close> and the accented capitals (all of 192..222 but the
  multiplication sign 215) 32 places up; white space (for \<open>trim\<close> and the class
  \<open>\s\<close>) is TAB, LF, VT, FF, CR, SPACE and NBSP; a word character (\<open>\w\<close>, \<open>\b\<close>)
  is an ASCII letter, a digit or the underscore.
\<close>

definition toLowerChar :: "char \<Rightarrow> char" where
  "toLowerChar c =
     (let n = (of_char c :: nat) in
      if (65 \<le> n \<and> n \<le> 90) \<or> (192 \<le> n \<and> n \<le> 222 \<and> n \<noteq> 215)
      then char_of (n + 32) else c)"

definition toLowerCase :: "string \<Rightarrow> string" where
  "toLowerCase s = map toLowerChar s"

text \<open>
  Upper case, for the letters that have an upper-case code unit below 256.  The source
  applies \<open>toUpperCase\<close> only to a match of \<open>(asc|desc)\<close>, and the regular expressions
  canonicalise with it when the flag \<open>i\<close> is set.
\<close>

definition toUpperChar :: "char \<Rightarrow> char" where
  "toUpperChar c =
     (let n = (of_char c :: nat) in
      if (97 \<le> n \<and> n \<le> 122) \<or> (224 \<le> n \<and> n \<le> 254 \<and> n \<noteq> 247)
      then char_of (n - 32) else c)"

definition toUpperCase :: "string \<Rightarrow> string" where
  "toUpperCase s = map toUpperChar s"

definition isDigit :: "char \<Rightarrow> bool" where
  "isDigit c = (let n = (of_char c :: nat) in 48 \<le> n \<and> n \<le> 57)"

definition isWordChar :: "char \<Rightarrow> bool" where
  "isWordChar c =
     (let n = (of_char c :: nat) in
      (97 \<le> n \<and> n \<le> 122) \<or> (65 \<le> n \<and> n \<le> 90) \<or> (48 \<le> n \<and> n \<le> 57) \<or> n = 95)"

definition isLineTerminator :: "char \<Rightarrow> bool" where
  "isLineTerminator c = (let n = (of_char c :: nat) in n = 10 \<or> n = 13)"

definition isWhiteSpace :: "char \<Rightarrow> bool" where
  "isWhiteSpace c = (let n = (of_char c :: nat) in (9 \<le> n \<and> n \<le> 13) \<or> n = 32 \<or> n = 160)"

definition trim :: "string \<Rightarrow> string" where
  "trim s = rev (dropWhile isWhiteSpace (rev (dropWhile isWhiteSpace s)))"

text \<open>\<open>s.includes(sub)\<close>: \<open>sub\<close> occurs in \<open>s\<close> as a contiguous substring.\<close>

fun includesStr :: "string \<Rightarrow> string \<Rightarrow> bool" where
  "includesStr [] sub = (sub = [])"
| "includesStr (c # cs) sub = (prefix sub (c # cs) \<or> includesStr cs sub)"

text \<open>\<open>xs.join(sep)\<close>.\<close>

fun join :: "string \<Rightarrow> string list \<Rightarrow> string" where
  "join sep [] = []"
| "join sep [x] = x"
| "join sep (x # y # ys) = x @ sep @ join sep (y # ys)"

text \<open>
  A value that is a string, \<open>undefined\<close> or \<open>null\<close> is a \<^typ>\<open>string option\<close>.  It is
  truthy when it is a string that is not empty; in a template literal \<open>undefined\<close>
  prints as the word (\<open>jsStr\<close>), and so does \<open>null\<close> (\<open>jsNull\<close>).
\<close>

definition truthy :: "string option \<Rightarrow> bool" where
  "truthy v = (case v of None \<Rightarrow> False | Some s \<Rightarrow> s \<noteq> [])"

definition jsStr :: "string option \<Rightarrow> string" where
  "jsStr v = (case v of None \<Rightarrow> ''undefined'' | Some s \<Rightarrow> s)"

definition jsNull :: "string option \<Rightarrow> string" where
  "jsNull v = (case v of None \<Rightarrow> ''null'' | Some s \<Rightarrow> s)"

subsection \<open>\<open>isNaN\<close> of a string\<close>

text \<open>
  \<open>isNaN(v)\<close> converts \<open>v\<close> to a number first.  A string converts to a number other than
  \<open>NaN\<close> when, white space trimmed, it is empty, a binary, octal or hexadecimal integer
  literal, or an optionally signed decimal literal (\<open>Infinity\<close>, or digits with an optional
  fraction and exponent); \<open>undefined\<close> converts to \<open>NaN\<close>.
\<close>

definition isDigits :: "string \<Rightarrow> bool" where
  "isDigits s = (s \<noteq> [] \<and> list_all isDigit s)"

fun exponentPart :: "string \<Rightarrow> bool" where
  "exponentPart [] = True"
| "exponentPart (c # cs) =
     ((c = CHR ''e'' \<or> c = CHR ''E'') \<and>
      (case cs of
         [] \<Rightarrow> False
       | s # ds \<Rightarrow> if s = CHR ''+'' \<or> s = CHR ''-'' then isDigits ds else isDigits cs))"

definition unsignedDecimal :: "string \<Rightarrow> bool" where
  "unsignedDecimal s =
     (s = ''Infinity'' \<or>
      (let intPart = takeWhile isDigit s; r = dropWhile isDigit s in
       case r of
         [] \<Rightarrow> intPart \<noteq> []
       | c # cs \<Rightarrow>
           if c = CHR ''.''
           then (let frac = takeWhile isDigit cs; e = dropWhile isDigit cs in
                 (intPart \<noteq> [] \<or> frac \<noteq> []) \<and> exponentPart e)
           else intPart \<noteq> [] \<and> exponentPart r))"

definition nonDecimalInteger :: "string \<Rightarrow> bool" where
  "nonDecimalInteger s =
     (case s of
        z # x # ds \<Rightarrow>
          z = CHR ''0'' \<and> ds \<noteq> [] \<and>
          (if x = CHR ''b'' \<or> x = CHR ''B'' then list_all (\<lambda>d. d \<in> set ''01'') ds
           else if x = CHR ''o'' \<or> x = CHR ''O'' then list_all (\<lambda>d. d \<in> set ''01234567'') ds
           else if x = CHR ''x'' \<or> x = CHR ''X''
             then list_all (\<lambda>d. d \<in> set ''0123456789abcdefABCDEF'') ds
           else False)
      | _ \<Rightarrow> False)"

definition strIsNumeric :: "string \<Rightarrow> bool" where
  "strIsNumeric s =
     (let t = trim s in
      t = [] \<or> nonDecimalInteger t \<or>
      unsignedDecimal (case t of
                         [] \<Rightarrow> t
                       | c # cs \<Rightarrow> if c = CHR ''+'' \<or> c = CHR ''-'' then cs else t))"

definition isNaN :: "string option \<Rightarrow> bool" where
  "isNaN v = (case v of None \<Rightarrow> True | Some s \<Rightarrow> \<not> strIsNumeric s)"

section \<open>Regular expressions\<close>

text \<open>
  The fragment of the language's regular expressions that the source uses, every one with
  the flag \<open>i\<close>.  \<open>Lit\<close> is a literal character, \<open>Dot\<close> is \<open>.\<close>, \<open>OneOf\<close> a class
  \<open>[...]\<close> (\<open>\w\<close> is \<open>OneOf [CWord]\<close>), \<open>NoneOf\<close> a negated class \<open>[^...]\<close>,
  \<open>WordB\<close> is \<open>\b\<close>, \<open>Group n\<close> the n-th capturing group; \<open>Star\<close>, \<open>Plus\<close>
  and \<open>Opt\<close> are the greedy \<open>*\<close>, \<open>+\<close> and \<open>?\<close>, \<open>LazyStar\<close> is \<open>*?\<close>.
  A non-capturing group needs no constructor.
\<close>

datatype cls = CChar char | CWord | CSpace | CDigit

datatype regex =
    Eps
  | Lit char
  | Dot
  | OneOf "cls list"
  | NoneOf "cls list"
  | WordB
  | Seq regex regex
  | Alt regex regex
  | Star regex
  | LazyStar regex
  | Plus regex
  | Opt regex
  | Group nat regex

fun seqs :: "regex list \<Rightarrow> regex" where
  "seqs [] = Eps"
| "seqs [r] = r"
| "seqs (r # rs) = Seq r (seqs rs)"

fun alts :: "regex list \<Rightarrow> regex" where
  "alts [] = Eps"
| "alts [r] = r"
| "alts (r # rs) = Alt r (alts rs)"

definition str :: "string \<Rightarrow> regex" where
  "str s = seqs (map Lit s)"

text \<open>
  Matching with the flag \<open>i\<close> compares canonical characters: the upper-case ones.
  The classes \<open>\w\<close>, \<open>\s\<close> and \<open>\d\<close> are closed under it.
\<close>

fun clsMatches :: "cls \<Rightarrow> char \<Rightarrow> bool" where
  "clsMatches (CChar a) c = (toUpperChar a = toUpperChar c)"
| "clsMatches CWord c = isWordChar c"
| "clsMatches CSpace c = isWhiteSpace c"
| "clsMatches CDigit c = isDigit c"

text \<open>
  A matcher state: the character before the current position (none at the start of the
  input), the input from the current position on, and the captures so far.
\<close>

record mstate =
  prev :: "char option"
  rest :: string
  caps :: "nat \<Rightarrow> string option"

definition consume :: "(char \<Rightarrow> bool) \<Rightarrow> mstate \<Rightarrow> mstate list" where
  "consume P s =
     (case rest s of
        [] \<Rightarrow> []
      | c # cs \<Rightarrow> if P c then [s\<lparr>prev := Some c, rest := cs\<rparr>] else [])"

definition atWordBoundary :: "mstate \<Rightarrow> bool" where
  "atWordBoundary s =
     ((case prev s of None \<Rightarrow> False | Some c \<Rightarrow> isWordChar c) \<noteq>
      (case rest s of [] \<Rightarrow> False | c # _ \<Rightarrow> isWordChar c))"

definition advanced :: "mstate \<Rightarrow> mstate \<Rightarrow> bool" where
  "advanced s s' = (length (rest s') < length (rest s))"

text \<open>
  Backtracking is a list of successes: \<open>run r s\<close> lists the states in which a match of
  \<open>r\<close> from \<open>s\<close> can end, in the order in which the backtracking matcher of the language
  tries them, so that the head of the list is the match it finds.  An iteration of a
  quantifier that consumes nothing is rejected, as the language does.
\<close>

function greedyStar :: "(mstate \<Rightarrow> mstate list) \<Rightarrow> mstate \<Rightarrow> mstate list" where
  "greedyStar m s = concat (map (greedyStar m) (filter (advanced s) (m s))) @ [s]"
  by pat_completeness auto
termination
  by (relation "measure (\<lambda>(m, s). length (rest s))") (auto simp: advanced_def)

function lazyStar :: "(mstate \<Rightarrow> mstate list) \<Rightarrow> mstate \<Rightarrow> mstate list" where
  "lazyStar m s = s # concat (map (lazyStar m) (filter (advanced s) (m s)))"
  by pat_completeness auto
termination
  by (relation "measure (\<lambda>(m, s). length (rest s))") (auto simp: advanced_def)

declare greedyStar.simps [simp del] lazyStar.simps [simp del]

definition capture :: "nat \<Rightarrow> mstate \<Rightarrow> mstate \<Rightarrow> mstate" where
  "capture n s s' =
     s'\<lparr>caps := (caps s')(n \<mapsto> take (length (rest s) - length (rest s')) (rest s))\<rparr>"

primrec run :: "regex \<Rightarrow> mstate \<Rightarrow> mstate list" where
  "run Eps s = [s]"
| "run (Lit a) s = consume (\<lambda>c. toUpperChar a = toUpperChar c) s"
| "run Dot s = consume (\<lambda>c. \<not> isLineTerminator c) s"
| "run (OneOf cs) s = consume (\<lambda>c. list_ex (\<lambda>k. clsMatches k c) cs) s"
| "run (NoneOf cs) s = consume (\<lambda>c. \<not> list_ex (\<lambda>k. clsMatches k c) cs) s"
| "run WordB s = (if atWordBoundary s then [s] else [])"
| "run (Seq r1 r2) s = concat (map (run r2) (run r1 s))"
| "run (Alt r1 r2) s = run r1 s @ run r2 s"
| "run (Star r) s = greedyStar (run r) s"
| "run (LazyStar r) s = lazyStar (run r) s"
| "run (Plus r) s = concat (map (greedyStar (run r)) (run r s))"
| "run (Opt r) s = filter (advanced s) (run r s) @ [s]"
| "run (Group n r) s = map (capture n s) (run r s)"

text \<open>
  \<open>text.match(re)\<close> for a regular expression without the flag \<open>g\<close>: the match at the
  leftmost position that has one, as the array of the whole match (index 0) and the
  captures; \<open>null\<close> when no position has one.  \<open>re.test(text)\<close> says whether there is one.
\<close>

fun execFrom :: "regex \<Rightarrow> char option \<Rightarrow> string \<Rightarrow> (nat \<Rightarrow> string option) option" where
  "execFrom re p s =
     (case run re \<lparr>prev = p, rest = s, caps = Map.empty\<rparr> of
        m # _ \<Rightarrow> Some ((caps m)(0 \<mapsto> take (length s - length (rest m)) s))
      | [] \<Rightarrow> (case s of [] \<Rightarrow> None | c # cs \<Rightarrow> execFrom re (Some c) cs))"

declare execFrom.simps [simp del]

definition regexMatch :: "regex \<Rightarrow> string \<Rightarrow> (nat \<Rightarrow> string option) option" where
  "regexMatch re s = execFrom re None s"

definition test :: "regex \<Rightarrow> string \<Rightarrow> bool" where
  "test re s = (regexMatch re s \<noteq> None)"

text \<open>
  \<open>text.split(re)\<close> for a regular expression without groups: \<open>cur\<close> is the piece since
  the last separator, reversed.  A separator is looked for at each position; an empty one
  at the start of a piece is passed over.
\<close>

function splitLoop :: "regex \<Rightarrow> char option \<Rightarrow> string \<Rightarrow> string \<Rightarrow> string list" where
  "splitLoop re p [] cur = [rev cur]"
| "splitLoop re p (c # cs) cur =
     (case run re \<lparr>prev = p, rest = c # cs, caps = Map.empty\<rparr> of
        [] \<Rightarrow> splitLoop re (Some c) cs (c # cur)
      | m # _ \<Rightarrow>
          if length (rest m) < length (c # cs)
          then rev cur # splitLoop re (prev m) (rest m) []
          else if cur = [] then splitLoop re (Some c) cs [c]
          else rev cur # splitLoop re (Some c) cs [c])"
  by pat_completeness auto
termination
  by (relation "measure (\<lambda>(re, p, s, cur). length s)") auto

definition split :: "regex \<Rightarrow> string \<Rightarrow> string list" where
  "split re s =
     (if s = []
      then (if run re \<lparr>prev = None, rest = [], caps = Map.empty\<rparr> = [] then [[]] else [])
      else splitLoop re None s [])"

section \<open>The column resolver\<close>

text \<open>
  \<open>findBestColumnMatch(word, columnNames)\<close>.  \<open>columnNames.find(...)\<close> gives the first
  element that satisfies the test, or \<open>undefined\<close>; each tier returns what it found only
  if that is truthy.
\<close>

definition findBestColumnMatch :: "string \<Rightarrow> string list \<Rightarrow> string option" where
  "findBestColumnMatch word columnNames =
     (let lowerWord = toLowerCase word;
          exactMatch = find (\<lambda>col. toLowerCase col = lowerWord) columnNames
      in if truthy exactMatch then exactMatch
         else
           let containsMatch = find (\<lambda>col. includesStr (toLowerCase col) lowerWord) columnNames
           in if truthy containsMatch then containsMatch
              else
                let partialMatch = find (\<lambda>col. includesStr lowerWord (toLowerCase col)) columnNames
                in if truthy partialMatch then partialMatch else None)"

text \<open>
  The resolver as the specification words it: the first column equal to the word, else the
  first column that contains the word, else the first column that the word contains, all
  in lower case; null when no tier has a column.
\<close>

definition resolveBySpec :: "string \<Rightarrow> string list \<Rightarrow> string option" where
  "resolveBySpec word columns =
     (case find (\<lambda>col. toLowerCase col = toLowerCase word) columns of
        Some c \<Rightarrow> Some c
      | None \<Rightarrow>
          (case find (\<lambda>col. includesStr (toLowerCase col) (toLowerCase word)) columns of
             Some c \<Rightarrow> Some c
           | None \<Rightarrow> find (\<lambda>col. includesStr (toLowerCase word) (toLowerCase col)) columns))"

section \<open>The clause extractors\<close>

text \<open>
  The one exception a string-valued call of the translator can raise is the
  \<open>TypeError\<close> of reading a property of \<open>null\<close> or \<open>undefined\<close>.
\<close>

datatype js_error = TypeError

abbreviation ws1 :: regex where
  "ws1 \<equiv> Plus (OneOf [CSpace])"

abbreviation word1 :: regex where
  "word1 \<equiv> Plus (OneOf [CWord])"

abbreviation quote :: regex where
  "quote \<equiv> OneOf [CChar (CHR 0x27), CChar (CHR 0x22)]"

abbreviation unquoted1 :: regex where
  "unquoted1 \<equiv> Plus (NoneOf [CChar (CHR 0x27), CChar (CHR 0x22), CSpace])"

text \<open>
  \<open>findBestColumnMatch(match[i], columnNames)\<close> on a capture: the resolver calls
  \<open>word.toLowerCase()\<close> first, which raises when the capture is \<open>undefined\<close>.
\<close>

definition resolveCapture :: "string option \<Rightarrow> string list \<Rightarrow> js_error + string option" where
  "resolveCapture w columnNames =
     (case w of
        None \<Rightarrow> Inl TypeError
      | Some word \<Rightarrow> Inr (findBestColumnMatch word columnNames))"

text \<open>\<open>column ? f(column) : null\<close>.\<close>

definition ifColumn :: "string option \<Rightarrow> (string \<Rightarrow> string) \<Rightarrow> string option" where
  "ifColumn column f =
     (case column of None \<Rightarrow> None | Some c \<Rightarrow> if c = [] then None else Some (f c))"

text \<open>
  \<open>extractWhereConditions(text, columnNames, columnTypes)\<close>: the six condition patterns,
  each a regular expression and a handler of its match.  (The local \<open>words\<close> of the source
  is never read.)
\<close>

type_synonym jsmatch = "nat \<Rightarrow> string option"

definition conditionPatterns ::
    "string list \<Rightarrow> (regex \<times> (jsmatch \<Rightarrow> js_error + string option)) list" where
  "conditionPatterns columnNames =
     [ \<comment> \<open>Greater than\<close>
       (seqs [Group 1 word1, ws1,
              alts [str ''greater than'', str ''more than'', str ''above'', str ''over''],
              ws1, Group 2 (Plus (OneOf [CDigit, CChar (CHR ''.'')]))],
        \<lambda>match.
          case resolveCapture (match 1) columnNames of
            Inl e \<Rightarrow> Inl e
          | Inr column \<Rightarrow> Inr (ifColumn column (\<lambda>c. c @ '' > '' @ jsStr (match 2)))),
       \<comment> \<open>Less than\<close>
       (seqs [Group 1 word1, ws1,
              alts [str ''less than'', str ''fewer than'', str ''below'', str ''under''],
              ws1, Group 2 (Plus (OneOf [CDigit, CChar (CHR ''.'')]))],
        \<lambda>match.
          case resolveCapture (match 1) columnNames of
            Inl e \<Rightarrow> Inl e
          | Inr column \<Rightarrow> Inr (ifColumn column (\<lambda>c. c @ '' < '' @ jsStr (match 2)))),
       \<comment> \<open>Equal to\<close>
       (seqs [Group 1 word1, ws1,
              alts [str ''equal to'', str ''exactly'', str ''is''],
              ws1, Group 2 (Plus (OneOf [CWord, CChar (CHR ''.'')]))],
        \<lambda>match.
          case resolveCapture (match 1) columnNames of
            Inl e \<Rightarrow> Inl e
          | Inr column \<Rightarrow>
              (let v = (if isNaN (match 2) then [CHR 0x27] @ jsStr (match 2) @ [CHR 0x27]
                        else jsStr (match 2))
               in Inr (ifColumn column (\<lambda>c. c @ '' = '' @ v)))),
       \<comment> \<open>Contains/Like\<close>
       (seqs [Group 1 word1, ws1,
              alts [str ''containing'', str ''contain'', str ''like'', str ''with''],
              ws1, Opt quote, Group 2 unquoted1, Opt quote],
        \<lambda>match.
          case resolveCapture (match 1) columnNames of
            Inl e \<Rightarrow> Inl e
          | Inr column \<Rightarrow>
              Inr (ifColumn column
                     (\<lambda>c. c @ '' LIKE '' @ [CHR 0x27] @ ''%'' @ jsStr (match 2) @ ''%'' @ [CHR 0x27]))),
       \<comment> \<open>Simple comparisons\<close>
       (seqs [Group 1 word1, ws1,
              Group 2 (seqs [OneOf [CChar (CHR ''>''), CChar (CHR ''<''), CChar (CHR ''='')],
                             Opt (Lit (CHR ''=''))]),
              ws1, Group 3 (Plus (OneOf [CWord, CChar (CHR ''.'')]))],
        \<lambda>match.
          case resolveCapture (match 1) columnNames of
            Inl e \<Rightarrow> Inl e
          | Inr column \<Rightarrow>
              (let v = (if isNaN (match 3) \<and>
                           match 2 \<notin> set [Some ''>'', Some ''<'', Some ''>='', Some ''<='']
                        then [CHR 0x27] @ jsStr (match 3) @ [CHR 0x27]
                        else jsStr (match 3))
               in Inr (ifColumn column (\<lambda>c. c @ '' '' @ jsStr (match 2) @ '' '' @ v)))),
       \<comment> \<open>Named/Called\<close>
       (seqs [alts [str ''named'', str ''called'', str ''name is'', str ''is''],
              ws1, Opt quote, Group 1 unquoted1, Opt quote],
        \<lambda>match.
          (let n = findBestColumnMatch ''name'' columnNames;
               column = (if truthy n then n else findBestColumnMatch ''title'' columnNames)
           in Inr (ifColumn column
                     (\<lambda>c. c @ '' = '' @ [CHR 0x27] @ jsStr (match 1) @ [CHR 0x27]))))
     ]"

text \<open>
  The loop over the condition patterns: a pattern that matches and whose handler gives a
  truthy condition appends it.
\<close>

fun collectConditions ::
    "(regex \<times> (jsmatch \<Rightarrow> js_error + string option)) list \<Rightarrow> string \<Rightarrow> string list
     \<Rightarrow> js_error + string list" where
  "collectConditions [] text conditions = Inr conditions"
| "collectConditions ((re, handler) # ps) text conditions =
     (case regexMatch re text of
        None \<Rightarrow> collectConditions ps text conditions
      | Some match \<Rightarrow>
          (case handler match of
             Inl e \<Rightarrow> Inl e
           | Inr condition \<Rightarrow>
               if truthy condition
               then collectConditions ps text (conditions @ [the condition])
               else collectConditions ps text conditions))"

definition extractWhereConditions ::
    "string \<Rightarrow> string list \<Rightarrow> (string \<rightharpoonup> string) \<Rightarrow> js_error + string option" where
  "extractWhereConditions text columnNames columnTypes =
     (case collectConditions (conditionPatterns columnNames) text [] of
        Inl e \<Rightarrow> Inl e
      | Inr conditions \<Rightarrow>
          Inr (if length conditions > 0 then Some (join '' AND '' conditions) else None))"

text \<open>\<open>extractColumns(text, columnNames)\<close>, for the SELECT clause.\<close>

definition extractColumns :: "string option \<Rightarrow> string list \<Rightarrow> string" where
  "extractColumns text columnNames =
     (if \<not> truthy text then ''*''
      else
        let requestedColumns =
              map trim (split (seqs [Star (OneOf [CSpace]), Lit (CHR '',''), Star (OneOf [CSpace])])
                              (the text));
            validColumns = map the (filter truthy
                                      (map (\<lambda>col. findBestColumnMatch col columnNames)
                                         requestedColumns))
        in if length validColumns > 0 then join '', '' validColumns else ''*'')"

text \<open>\<open>extractOrderBy(text, columnNames)\<close>.\<close>

definition extractOrderBy :: "string \<Rightarrow> string list \<Rightarrow> js_error + string" where
  "extractOrderBy text columnNames =
     (case regexMatch
             (seqs [alts [str ''order by'', str ''sort by''], ws1, Group 1 word1,
                    Opt (seqs [ws1, Group 2 (alts [str ''asc'', str ''desc''])])])
             text of
        None \<Rightarrow> Inr []
      | Some orderMatch \<Rightarrow>
          (case resolveCapture (orderMatch 1) columnNames of
             Inl e \<Rightarrow> Inl e
           | Inr column \<Rightarrow>
               (let direction =
                      toUpperCase (if truthy (orderMatch 2) then the (orderMatch 2) else ''asc'')
                in Inr (case ifColumn column (\<lambda>c. ''ORDER BY '' @ c @ '' '' @ direction) of
                          None \<Rightarrow> []
                        | Some clause \<Rightarrow> clause))))"

text \<open>
  \<open>extractColumnForAggregate(text, columnNames, keywords)\<close>.  The regular expression is
  built from the keyword; every keyword of the source is a plain word, which stands for
  itself.  The result is \<open>undefined\<close> when the fallbacks find nothing.
\<close>

fun aggregateKeywordColumn :: "string list \<Rightarrow> string \<Rightarrow> string list \<Rightarrow> js_error + string option" where
  "aggregateKeywordColumn [] text columnNames = Inr None"
| "aggregateKeywordColumn (keyword # keywords) text columnNames =
     (case regexMatch
             (seqs [WordB, str keyword, WordB, LazyStar Dot, WordB, Group 1 word1, WordB])
             text of
        None \<Rightarrow> aggregateKeywordColumn keywords text columnNames
      | Some match \<Rightarrow>
          (case resolveCapture (match 1) columnNames of
             Inl e \<Rightarrow> Inl e
           | Inr column \<Rightarrow>
               if truthy column then Inr column
               else aggregateKeywordColumn keywords text columnNames))"

definition numericColumns :: "string list \<Rightarrow> string list" where
  "numericColumns columnNames =
     filter (\<lambda>col. includesStr (toLowerCase col) ''id'' \<or>
                   includesStr (toLowerCase col) ''age'' \<or>
                   includesStr (toLowerCase col) ''salary'' \<or>
                   includesStr (toLowerCase col) ''price'' \<or>
                   includesStr (toLowerCase col) ''amount'') columnNames"

text \<open>\<open>xs[0]\<close>: the first element, \<open>undefined\<close> on the empty array.\<close>

definition first :: "string list \<Rightarrow> string option" where
  "first xs = (case xs of [] \<Rightarrow> None | x # _ \<Rightarrow> Some x)"

definition extractColumnForAggregate ::
    "string \<Rightarrow> string list \<Rightarrow> string list \<Rightarrow> js_error + string option" where
  "extractColumnForAggregate text columnNames keywords =
     (case aggregateKeywordColumn keywords text columnNames of
        Inl e \<Rightarrow> Inl e
      | Inr (Some column) \<Rightarrow> Inr (Some column)
      | Inr None \<Rightarrow>
          Inr (if truthy (first (numericColumns columnNames))
               then first (numericColumns columnNames)
               else first columnNames))"

text \<open>
  The first tier as the specification words it, without a regular expression: the word
  that follows a keyword.  The keyword is looked for from the left of the phrase, as a
  whole word and in any case (\<open>readKeyword\<close> between two word boundaries); the word is
  the first one that begins after it on the same line (\<open>nextWord\<close>).  A place where
  the keyword stands with no word after it is passed over.  The flag \<open>b\<close> says that the
  character before the place is a word character.  The keywords are tried in order, and
  the first whose word the column resolver resolves gives the column.
\<close>

definition wordBefore :: "char option \<Rightarrow> bool" where
  "wordBefore p = (case p of None \<Rightarrow> False | Some c \<Rightarrow> isWordChar c)"

definition wordBoundary :: "bool \<Rightarrow> string \<Rightarrow> bool" where
  "wordBoundary b s = (b \<noteq> (case s of [] \<Rightarrow> False | c # _ \<Rightarrow> isWordChar c))"

fun readKeyword :: "string \<Rightarrow> bool \<Rightarrow> string \<Rightarrow> (bool \<times> string) option" where
  "readKeyword [] b s = Some (b, s)"
| "readKeyword (a # k) b [] = None"
| "readKeyword (a # k) b (c # s) =
     (if toUpperChar a = toUpperChar c then readKeyword k (isWordChar c) s else None)"

fun nextWord :: "bool \<Rightarrow> string \<Rightarrow> string option" where
  "nextWord b [] = None"
| "nextWord b (c # s) =
     (if isWordChar c \<and> \<not> b then Some (takeWhile isWordChar (c # s))
      else if isLineTerminator c then None
      else nextWord (isWordChar c) s)"

definition wordAfterHere :: "string \<Rightarrow> bool \<Rightarrow> string \<Rightarrow> string option" where
  "wordAfterHere k b s =
     (if wordBoundary b s
      then (case readKeyword k b s of
              None \<Rightarrow> None
            | Some (b', r) \<Rightarrow> if wordBoundary b' r then nextWord b' r else None)
      else None)"

fun wordAfter :: "string \<Rightarrow> bool \<Rightarrow> string \<Rightarrow> string option" where
  "wordAfter k b [] = wordAfterHere k b []"
| "wordAfter k b (c # s) =
     (case wordAfterHere k b (c # s) of
        Some w \<Rightarrow> Some w
      | None \<Rightarrow> wordAfter k (isWordChar c) s)"

fun resolvedAfterKeyword :: "string list \<Rightarrow> string \<Rightarrow> string list \<Rightarrow> string option" where
  "resolvedAfterKeyword [] text columnNames = None"
| "resolvedAfterKeyword (keyword # keywords) text columnNames =
     (case wordAfter keyword False text of
        None \<Rightarrow> resolvedAfterKeyword keywords text columnNames
      | Some w \<Rightarrow>
          if truthy (findBestColumnMatch w columnNames) then findBestColumnMatch w columnNames
          else resolvedAfterKeyword keywords text columnNames)"

text \<open>\<open>extractLimit(text)\<close>.\<close>

definition extractLimit :: "string \<Rightarrow> string option" where
  "extractLimit text =
     (case regexMatch
             (seqs [alts [str ''limit'', str ''first'', str ''top''], ws1,
                    Group 1 (Plus (OneOf [CDigit]))])
             text of
        None \<Rightarrow> Some ''100''
      | Some limitMatch \<Rightarrow> limitMatch 1)"

section \<open>The phrase matcher\<close>

text \<open>
  A rule of the table \<open>patterns\<close>: the trigger, the SQL (a string, or a function of the
  phrase that may raise) and the description.
\<close>

datatype sqlSource = Text string | Fn "string \<Rightarrow> js_error + string"

record rule =
  pattern :: regex
  sql :: sqlSource
  description :: string

record translation =
  sqlQuery :: string
  error :: "string option"

definition patterns :: "string \<Rightarrow> string list \<Rightarrow> (string \<rightharpoonup> string) \<Rightarrow> rule list" where
  "patterns table columnNames columnTypes =
     [ \<lparr>pattern = seqs [WordB, Group 1 (alts [str ''count'', str ''how many'']), WordB, Star Dot,
                       WordB,
                       Group 2 (alts [str ''all'', str ''everything'', str ''records'', str ''rows'']),
                       WordB],
        sql = Text (''SELECT COUNT(*) as count FROM '' @ table),
        description = ''Count all records''\<rparr>,
       \<lparr>pattern = seqs [WordB, Group 1 (alts [str ''count'', str ''how many'']), WordB],
        sql = Text (''SELECT COUNT(*) as count FROM '' @ table),
        description = ''Count records''\<rparr>,
       \<lparr>pattern = alts [seqs [WordB, str ''show'', ws1, str ''me'', ws1, str ''all'', WordB],
                       seqs [WordB, str ''select'', ws1, str ''all'', WordB],
                       seqs [WordB, str ''get'', ws1, str ''all'', WordB],
                       seqs [WordB, str ''list'', ws1, str ''all'', WordB],
                       seqs [WordB, str ''everything'', WordB]],
        sql = Text (''SELECT * FROM '' @ table),
        description = ''Select all records''\<rparr>,
       \<lparr>pattern = alts [seqs [WordB, str ''find'', ws1, str ''records'', ws1, str ''where'', WordB],
                       seqs [WordB, str ''filter'', ws1, str ''by'', WordB]],
        sql = Fn (\<lambda>text.
                case extractWhereConditions text columnNames columnTypes of
                  Inl e \<Rightarrow> Inl e
                | Inr conditions \<Rightarrow>
                    Inr (''SELECT * FROM '' @ table @ '' WHERE '' @ jsNull conditions)),
        description = ''Filter records with conditions''\<rparr>,
       \<lparr>pattern = seqs [WordB, str ''show'', ws1, Opt (seqs [str ''me'', ws1]),
                       Group 1 (LazyStar Dot), ws1, str ''where'', WordB],
        sql = Fn (\<lambda>text.
                case regexMatch
                       (seqs [str ''show'', ws1, Opt (seqs [str ''me'', ws1]),
                              Group 1 (LazyStar Dot), ws1, str ''where''])
                       text of
                  None \<Rightarrow> Inl TypeError
                | Some match \<Rightarrow>
                    (let columns = extractColumns (match 1) columnNames in
                     case extractWhereConditions text columnNames columnTypes of
                       Inl e \<Rightarrow> Inl e
                     | Inr conditions \<Rightarrow>
                         Inr (''SELECT '' @ columns @ '' FROM '' @ table @ '' WHERE ''
                              @ jsNull conditions))),
        description = ''Select specific columns with conditions''\<rparr>,
       \<lparr>pattern = seqs [WordB,
                       Group 1 (alts [str ''what'', str ''which'', str ''show me'', str ''display'',
                                      str ''get'']),
                       WordB, Star Dot, WordB,
                       Group 2 (alts [str ''but'', str ''only'', str ''just'']), ws1,
                       Group 3 (Plus (OneOf [CWord, CSpace, CChar (CHR '','')])), WordB],
        sql = Fn (\<lambda>text.
                case regexMatch
                       (seqs [alts [str ''but'', str ''only'', str ''just''], ws1,
                              Group 1 (Plus (OneOf [CWord, CSpace, CChar (CHR '','')]))])
                       text of
                  None \<Rightarrow> Inl TypeError
                | Some match \<Rightarrow>
                    (let columns = extractColumns (match 1) columnNames in
                     Inr (''SELECT '' @ columns @ '' FROM '' @ table))),
        description = ''Select specific columns''\<rparr>,
       \<lparr>pattern = alts [seqs [WordB, str ''order'', ws1, str ''by'', WordB],
                       seqs [WordB, str ''sort'', ws1, str ''by'', WordB],
                       seqs [WordB, str ''sorted'', WordB]],
        sql = Fn (\<lambda>text.
                case extractOrderBy text columnNames of
                  Inl e \<Rightarrow> Inl e
                | Inr orderBy \<Rightarrow>
                    (case extractWhereConditions text columnNames columnTypes of
                       Inl e \<Rightarrow> Inl e
                     | Inr conditions \<Rightarrow>
                         (let whereClause =
                                (if truthy conditions then ''WHERE '' @ the conditions else [])
                          in Inr (''SELECT * FROM '' @ table @ '' '' @ whereClause @ '' ''
                                  @ orderBy)))),
        description = ''Select with ordering''\<rparr>,
       \<lparr>pattern = seqs [WordB, Group 1 (alts [str ''avg'', str ''average'', str ''mean'']), WordB, Star Dot,
                       WordB, Group 2 word1, WordB],
        sql = Fn (\<lambda>text.
                case extractColumnForAggregate text columnNames [''avg'', ''average'', ''mean''] of
                  Inl e \<Rightarrow> Inl e
                | Inr column \<Rightarrow>
                    Inr (''SELECT AVG('' @ jsStr column @ '') as average_'' @ jsStr column
                         @ '' FROM '' @ table)),
        description = ''Calculate average''\<rparr>,
       \<lparr>pattern = seqs [WordB, Group 1 (alts [str ''sum'', str ''total'']), WordB, Star Dot,
                       WordB, Group 2 word1, WordB],
        sql = Fn (\<lambda>text.
                case extractColumnForAggregate text columnNames [''sum'', ''total''] of
                  Inl e \<Rightarrow> Inl e
                | Inr column \<Rightarrow>
                    Inr (''SELECT SUM('' @ jsStr column @ '') as total_'' @ jsStr column
                         @ '' FROM '' @ table)),
        description = ''Calculate sum''\<rparr>,
       \<lparr>pattern = seqs [WordB, Group 1 (alts [str ''max'', str ''maximum'', str ''highest'', str ''largest'']), WordB, Star Dot,
                       WordB, Group 2 word1, WordB],
        sql = Fn (\<lambda>text.
                case extractColumnForAggregate text columnNames [''max'', ''maximum'', ''highest'', ''largest''] of
                  Inl e \<Rightarrow> Inl e
                | Inr column \<Rightarrow>
                    Inr (''SELECT MAX('' @ jsStr column @ '') as max_'' @ jsStr column
                         @ '' FROM '' @ table)),
        description = ''Find maximum value''\<rparr>,
       \<lparr>pattern = seqs [WordB, Group 1 (alts [str ''min'', str ''minimum'', str ''lowest'', str ''smallest'']), WordB, Star Dot,
                       WordB, Group 2 word1, WordB],
        sql = Fn (\<lambda>text.
                case extractColumnForAggregate text columnNames [''min'', ''minimum'', ''lowest'', ''smallest''] of
                  Inl e \<Rightarrow> Inl e
                | Inr column \<Rightarrow>
                    Inr (''SELECT MIN('' @ jsStr column @ '') as min_'' @ jsStr column
                         @ '' FROM '' @ table)),
        description = ''Find minimum value''\<rparr>,
       \<lparr>pattern = alts [seqs [WordB, str ''limit'', ws1, Group 1 (Plus (OneOf [CDigit])), WordB],
                       seqs [WordB, str ''first'', ws1, Group 2 (Plus (OneOf [CDigit])), WordB],
                       seqs [WordB, str ''top'', ws1, Group 3 (Plus (OneOf [CDigit])), WordB]],
        sql = Fn (\<lambda>text.
                (let limit = extractLimit text in
                 case extractWhereConditions text columnNames columnTypes of
                   Inl e \<Rightarrow> Inl e
                 | Inr conditions \<Rightarrow>
                     (let whereClause =
                            (if truthy conditions then ''WHERE '' @ the conditions else [])
                      in Inr (''SELECT * FROM '' @ table @ '' '' @ whereClause @ '' LIMIT ''
                              @ jsStr limit)))),
        description = ''Select with limit''\<rparr>
     ]"

text \<open>
  ``Add LIMIT for safety if not already present'': the textual check on the lower-cased
  SQL of the selected rule.
\<close>

definition addLimit :: "string \<Rightarrow> string" where
  "addLimit s =
     (if \<not> includesStr (toLowerCase s) ''limit'' \<and> \<not> includesStr (toLowerCase s) ''count(''
         \<and> \<not> includesStr (toLowerCase s) ''avg('' \<and> \<not> includesStr (toLowerCase s) ''sum(''
         \<and> \<not> includesStr (toLowerCase s) ''max('' \<and> \<not> includesStr (toLowerCase s) ''min(''
      then s @ '' LIMIT 100'' else s)"

text \<open>
  The SQL of a rule for a phrase: \<open>pattern.sql(text)\<close> when \<open>pattern.sql\<close> is a
  function, which may raise, and \<open>pattern.sql\<close> itself when it is a string.
\<close>

definition ruleSql :: "rule \<Rightarrow> string \<Rightarrow> js_error + string" where
  "ruleSql p text = (case sql p of Fn f \<Rightarrow> f text | Text s \<Rightarrow> Inr s)"

text \<open>
  The loop over the rules, in order.  A rule whose trigger matches the lower-cased phrase
  returns its SQL, unless its function raises: the exception is caught and the loop goes
  on with the next rule.  \<open>None\<close> is the loop running to its end.
\<close>

fun tryPatterns :: "rule list \<Rightarrow> string \<Rightarrow> string \<Rightarrow> translation option" where
  "tryPatterns [] lowerText text = None"
| "tryPatterns (p # ps) lowerText text =
     (if test (pattern p) lowerText
      then (case ruleSql p text of
              Inl e \<Rightarrow> tryPatterns ps lowerText text
            | Inr s \<Rightarrow> Some \<lparr>sqlQuery = addLimit s, error = None\<rparr>)
      else tryPatterns ps lowerText text)"

text \<open>
  \<open>generateSQLFromText(text, table, columnNames, columnTypes)\<close>.  \<open>Inr\<close> is a normal
  return; an exception that left the function would be \<open>Inl\<close>.
\<close>

definition generateSQLFromText ::
    "string \<Rightarrow> string \<Rightarrow> string list \<Rightarrow> (string \<rightharpoonup> string) \<Rightarrow> js_error + translation" where
  "generateSQLFromText text table columnNames columnTypes =
     (let lowerText = trim (toLowerCase text) in
      case tryPatterns (patterns table columnNames columnTypes) lowerText text of
        Some r \<Rightarrow> Inr r
      | None \<Rightarrow>
          (case extractWhereConditions text columnNames columnTypes of
             Inr conditions \<Rightarrow>
               Inr \<lparr>sqlQuery =
                      (if truthy conditions
                       then ''SELECT * FROM '' @ table @ '' WHERE '' @ the conditions @ '' LIMIT 100''
                       else ''SELECT * FROM '' @ table @ '' LIMIT 100''),
                    error = None\<rparr>
           | Inl e \<Rightarrow>
               Inr \<lparr>sqlQuery = ''SELECT * FROM '' @ table @ '' LIMIT 100'',
                    error = Some ''Could not understand query, showing sample data''\<rparr>))"

section \<open>Groups that every match sets\<close>

text \<open>
  \<open>alwaysCaptures n re\<close>: the group \<open>n\<close> lies on every path through \<open>re\<close>, outside
  the optional and the starred parts.
\<close>

primrec alwaysCaptures :: "nat \<Rightarrow> regex \<Rightarrow> bool" where
  "alwaysCaptures n Eps = False"
| "alwaysCaptures n (Lit a) = False"
| "alwaysCaptures n Dot = False"
| "alwaysCaptures n (OneOf cs) = False"
| "alwaysCaptures n (NoneOf cs) = False"
| "alwaysCaptures n WordB = False"
| "alwaysCaptures n (Seq r1 r2) = (alwaysCaptures n r1 \<or> alwaysCaptures n r2)"
| "alwaysCaptures n (Alt r1 r2) = (alwaysCaptures n r1 \<and> alwaysCaptures n r2)"
| "alwaysCaptures n (Star r) = False"
| "alwaysCaptures n (LazyStar r) = False"
| "alwaysCaptures n (Plus r) = alwaysCaptures n r"
| "alwaysCaptures n (Opt r) = False"
| "alwaysCaptures n (Group k r) = (k = n \<or> alwaysCaptures n r)"

section \<open>The shape of the SQL\<close>

text \<open>\<open>selectFrom table s\<close>: the text \<open>s\<close> begins with SELECT and has FROM and the table in it.\<close>

definition selectFrom :: "string \<Rightarrow> string \<Rightarrow> bool" where
  "selectFrom table s = (prefix ''SELECT '' s \<and> includesStr s ('' FROM '' @ table))"

section \<open>Statements of an SQL text\<close>

text \<open>
  The statements of an SQL text are separated by semicolons that stand outside a literal
  in single quotes.  \<open>bareSemicolon q s\<close>: scanning \<open>s\<close>, from inside a literal when
  \<open>q\<close> holds, meets such a semicolon; \<open>endsInQuote q s\<close>: the scan ends inside a literal.
  The scan reads the text as SQL does as long as nothing outside the literals opens a
  comment or a quoted identifier.
\<close>

fun bareSemicolon :: "bool \<Rightarrow> string \<Rightarrow> bool" where
  "bareSemicolon q [] = False"
| "bareSemicolon q (c # cs) =
     (if c = CHR 0x27 then bareSemicolon (\<not> q) cs
      else if c = CHR '';'' \<and> \<not> q then True
      else bareSemicolon q cs)"

fun endsInQuote :: "bool \<Rightarrow> string \<Rightarrow> bool" where
  "endsInQuote q [] = q"
| "endsInQuote q (c # cs) = endsInQuote (if c = CHR 0x27 then \<not> q else q) cs"

text \<open>
  \<open>closedSql s\<close>: a piece of text that has no bare semicolon and leaves no literal open;
  \<open>plainText s\<close>: one that has no quote and no semicolon at all.
\<close>

definition closedSql :: "string \<Rightarrow> bool" where
  "closedSql s = (\<not> bareSemicolon False s \<and> \<not> endsInQuote False s)"

definition closesQuote :: "string \<Rightarrow> bool" where
  "closesQuote s = (\<not> bareSemicolon True s \<and> \<not> endsInQuote True s)"

definition plainText :: "string \<Rightarrow> bool" where
  "plainText s = (CHR 0x27 \<notin> set s \<and> CHR '';'' \<notin> set s)"

section \<open>Characters that a group cannot hold\<close>

text \<open>
  \<open>consumesNone bad re\<close>: no character of \<open>bad\<close> can be consumed by \<open>re\<close>;
  \<open>groupAvoids bad n re\<close>: none can be consumed inside the group \<open>n\<close> of \<open>re\<close>.
\<close>

primrec consumesNone :: "char list \<Rightarrow> regex \<Rightarrow> bool" where
  "consumesNone bad Eps = True"
| "consumesNone bad (Lit a) = list_all (\<lambda>b. toUpperChar a \<noteq> toUpperChar b) bad"
| "consumesNone bad Dot = list_all isLineTerminator bad"
| "consumesNone bad (OneOf cs) = list_all (\<lambda>b. \<not> list_ex (\<lambda>k. clsMatches k b) cs) bad"
| "consumesNone bad (NoneOf cs) = list_all (\<lambda>b. list_ex (\<lambda>k. clsMatches k b) cs) bad"
| "consumesNone bad WordB = True"
| "consumesNone bad (Seq r1 r2) = (consumesNone bad r1 \<and> consumesNone bad r2)"
| "consumesNone bad (Alt r1 r2) = (consumesNone bad r1 \<and> consumesNone bad r2)"
| "consumesNone bad (Star r) = consumesNone bad r"
| "consumesNone bad (LazyStar r) = consumesNone bad r"
| "consumesNone bad (Plus r) = consumesNone bad r"
| "consumesNone bad (Opt r) = consumesNone bad r"
| "consumesNone bad (Group k r) = consumesNone bad r"

primrec groupAvoids :: "char list \<Rightarrow> nat \<Rightarrow> regex \<Rightarrow> bool" where
  "groupAvoids bad n Eps = True"
| "groupAvoids bad n (Lit a) = True"
| "groupAvoids bad n Dot = True"
| "groupAvoids bad n (OneOf cs) = True"
| "groupAvoids bad n (NoneOf cs) = True"
| "groupAvoids bad n WordB = True"
| "groupAvoids bad n (Seq r1 r2) = (groupAvoids bad n r1 \<and> groupAvoids bad n r2)"
| "groupAvoids bad n (Alt r1 r2) = (groupAvoids bad n r1 \<and> groupAvoids bad n r2)"
| "groupAvoids bad n (Star r) = groupAvoids bad n r"
| "groupAvoids bad n (LazyStar r) = groupAvoids bad n r"
| "groupAvoids bad n (Plus r) = groupAvoids bad n r"
| "groupAvoids bad n (Opt r) = groupAvoids bad n r"
| "groupAvoids bad n (Group k r) = ((if k = n then consumesNone bad r else True) \<and> groupAvoids bad n r)"

section \<open>Characters by their bits\<close>

text \<open>
  The character functions on \<open>Char b0 ... b7\<close> (\<open>b0\<close> the lowest bit), as equations for
  evaluation: letters differ from their other case in \<open>b5\<close> alone.
\<close>

lemma toLowerChar_Char [code]:
  "toLowerChar (Char b0 b1 b2 b3 b4 b5 b6 b7) =
     (if b6 \<and> \<not> b5 \<and>
         (if b7 then \<not> (b0 \<and> b1 \<and> b2 \<and> b4)
          else (b0 \<or> b1 \<or> b2 \<or> b3 \<or> b4) \<and> \<not> (b4 \<and> b3 \<and> (b2 \<or> (b1 \<and> b0))))
      then Char b0 b1 b2 b3 b4 True b6 b7 else Char b0 b1 b2 b3 b4 b5 b6 b7)"
  by (cases b0; cases b1; cases b2; cases b3; cases b4; cases b5; cases b6; cases b7;
      simp add: toLowerChar_def char_of_def bit_0 bit_Suc)

lemma toUpperChar_Char [code]:
  "toUpperChar (Char b0 b1 b2 b3 b4 b5 b6 b7) =
     (if b6 \<and> b5 \<and>
         (if b7 then \<not> (b0 \<and> b1 \<and> b2 \<and> b4)
          else (b0 \<or> b1 \<or> b2 \<or> b3 \<or> b4) \<and> \<not> (b4 \<and> b3 \<and> (b2 \<or> (b1 \<and> b0))))
      then Char b0 b1 b2 b3 b4 False b6 b7 else Char b0 b1 b2 b3 b4 b5 b6 b7)"
  by (cases b0; cases b1; cases b2; cases b3; cases b4; cases b5; cases b6; cases b7;
      simp add: toUpperChar_def char_of_def bit_0 bit_Suc)

lemma isDigit_Char [code]:
  "isDigit (Char b0 b1 b2 b3 b4 b5 b6 b7) =
     (\<not> b7 \<and> \<not> b6 \<and> b5 \<and> b4 \<and> (\<not> b3 \<or> (\<not> b2 \<and> \<not> b1)))"
  by (cases b0; cases b1; cases b2; cases b3; cases b4; cases b5; cases b6; cases b7;
      simp add: isDigit_def)

lemma isWordChar_Char [code]:
  "isWordChar (Char b0 b1 b2 b3 b4 b5 b6 b7) =
     (\<not> b7 \<and>
      ((b6 \<and> (b0 \<or> b1 \<or> b2 \<or> b3 \<or> b4) \<and> \<not> (b4 \<and> b3 \<and> (b2 \<or> (b1 \<and> b0))))
       \<or> (\<not> b6 \<and> b5 \<and> b4 \<and> (\<not> b3 \<or> (\<not> b2 \<and> \<not> b1)))
       \<or> (b6 \<and> \<not> b5 \<and> b4 \<and> b3 \<and> b2 \<and> b1 \<and> b0)))"
  by (cases b0; cases b1; cases b2; cases b3; cases b4; cases b5; cases b6; cases b7;
      simp add: isWordChar_def)

lemma isLineTerminator_Char [code]:
  "isLineTerminator (Char b0 b1 b2 b3 b4 b5 b6 b7) =
     (\<not> b7 \<and> \<not> b6 \<and> \<not> b5 \<and> \<not> b4 \<and> b3 \<and> ((\<not> b2 \<and> b1 \<and> \<not> b0) \<or> (b2 \<and> \<not> b1 \<and> b0)))"
  by (cases b0; cases b1; cases b2; cases b3; cases b4; cases b5; cases b6; cases b7;
      simp add: isLineTerminator_def)

lemma isWhiteSpace_Char [code]:
  "isWhiteSpace (Char b0 b1 b2 b3 b4 b5 b6 b7) =
     (\<not> b6 \<and> \<not> b4 \<and>
      ((\<not> b7 \<and> \<not> b5 \<and> b3 \<and> ((\<not> b2 \<and> (b1 \<or> b0)) \<or> (b2 \<and> \<not> b1)))
       \<or> (b5 \<and> \<not> b3 \<and> \<not> b2 \<and> \<not> b1 \<and> \<not> b0)))"
  by (cases b0; cases b1; cases b2; cases b3; cases b4; cases b5; cases b6; cases b7;
      simp add: isWhiteSpace_def)

section \<open>Properties of the column resolver\<close>

lemma find_in_set: "find P xs = Some x \<Longrightarrow> x \<in> set xs"
  by (induction xs) (auto split: if_splits)

lemma truthy_find:
  "[] \<notin> set xs \<Longrightarrow> truthy (find P xs) = (find P xs \<noteq> None)"
  by (cases "find P xs") (auto simp: truthy_def dest: find_in_set)

lemma findBestColumnMatch_member:
  "findBestColumnMatch word columnNames = Some c \<Longrightarrow> c \<in> set columnNames"
  by (auto simp: findBestColumnMatch_def Let_def split: if_splits dest: find_in_set)

text \<open>
  C8.  Whatever the word and the list of column names, the column resolver returns null
  or an element of the list.
\<close>

theorem findBestColumnMatch_in_columns:
  "findBestColumnMatch word columnNames = None
   \<or> (\<exists>c. findBestColumnMatch word columnNames = Some c \<and> c \<in> set columnNames)"
  by (cases "findBestColumnMatch word columnNames") (auto dest: findBestColumnMatch_member)

theorem findBestColumnMatch_in_columns_witness:
  "findBestColumnMatch ''Age'' [''id'', ''name'', ''age''] = Some ''age''
   \<and> ''age'' \<in> set [''id'', ''name'', ''age'']"
proof -
  have e: "findBestColumnMatch ''Age'' [''id'', ''name'', ''age''] = Some ''age''"
    by code_simp
  from findBestColumnMatch_in_columns [of "''Age''" "[''id'', ''name'', ''age'']"] e
  show ?thesis by simp
qed

text \<open>
  C3 (as amended).  When no column name is the empty string, the column resolver returns
  the first column whose lower-cased name equals the lower-cased word; failing that, the
  first column whose lower-cased name contains the lower-cased word; failing that, the
  first column whose lower-cased name is contained in the lower-cased word; and null when
  no tier has a column.
\<close>

theorem findBestColumnMatch_tiers:
  assumes "[] \<notin> set columnNames"
  shows "findBestColumnMatch word columnNames = resolveBySpec word columnNames"
proof -
  have t: "\<And>P. truthy (find P columnNames) = (find P columnNames \<noteq> None)"
    by (rule truthy_find [OF assms])
  show ?thesis
    by (auto simp: findBestColumnMatch_def resolveBySpec_def Let_def t split: option.splits)
qed

theorem findBestColumnMatch_tiers_witness:
  "[] \<notin> set [''id'', ''first_name'', ''name_of_pet'']
   \<and> findBestColumnMatch ''Name'' [''id'', ''first_name'', ''name_of_pet'']
       = resolveBySpec ''Name'' [''id'', ''first_name'', ''name_of_pet'']
   \<and> resolveBySpec ''Name'' [''id'', ''first_name'', ''name_of_pet''] = Some ''first_name''"
proof -
  have h: "[] \<notin> set [''id'', ''first_name'', ''name_of_pet'']"
    by simp
  have e: "resolveBySpec ''Name'' [''id'', ''first_name'', ''name_of_pet''] = Some ''first_name''"
    by code_simp
  from findBestColumnMatch_tiers [OF h, of "''Name''"] h e show ?thesis
    by simp
qed

text \<open>
  C3 as stated fails on a column whose name is the empty string: that column is in the
  word ``a'', so the third tier has it, but the resolver returns null.
\<close>

theorem findBestColumnMatch_tiers_counterexample:
  "findBestColumnMatch ''a'' [''''] = None \<and> resolveBySpec ''a'' [''''] = Some ''''"
  by code_simp


section \<open>The matcher moves forward\<close>

text \<open>
  Every state that a match ends in has, as the rest of its input, a suffix of the rest
  it started from: so the text between the two, which \<open>capture\<close> takes by length, is the
  text that the group consumed.
\<close>

lemma consume_rest: "s' \<in> set (consume P s) \<Longrightarrow> suffix (rest s') (rest s)"
proof (cases "rest s")
  case Nil
  assume "s' \<in> set (consume P s)"
  with Nil show ?thesis by (simp add: consume_def)
next
  case (Cons c cs)
  assume "s' \<in> set (consume P s)"
  with Cons have "rest s' = cs"
    by (auto simp: consume_def split: if_splits)
  with Cons show ?thesis by (simp add: suffix_ConsI)
qed

lemma greedyStar_rest:
  "s' \<in> set (greedyStar m s) \<Longrightarrow>
   (\<And>t t'. t' \<in> set (m t) \<Longrightarrow> suffix (rest t') (rest t)) \<Longrightarrow>
   suffix (rest s') (rest s)"
proof (induction m s rule: greedyStar.induct)
  case (1 m s)
  from "1.prems"(1) have "s' = s \<or> (\<exists>x \<in> set (filter (advanced s) (m s)). s' \<in> set (greedyStar m x))"
    by (subst (asm) greedyStar.simps) auto
  then show ?case
  proof
    assume "s' = s"
    then show ?thesis by simp
  next
    assume "\<exists>x \<in> set (filter (advanced s) (m s)). s' \<in> set (greedyStar m x)"
    then obtain x where x: "x \<in> set (filter (advanced s) (m s))" "s' \<in> set (greedyStar m x)"
      by blast
    from x(1) "1.prems"(2) have "suffix (rest x) (rest s)" by simp
    moreover from "1.IH" [OF x(1) x(2)] "1.prems"(2) have "suffix (rest s') (rest x)" by blast
    ultimately show ?thesis by (rule suffix_order.trans [rotated])
  qed
qed

lemma lazyStar_rest:
  "s' \<in> set (lazyStar m s) \<Longrightarrow>
   (\<And>t t'. t' \<in> set (m t) \<Longrightarrow> suffix (rest t') (rest t)) \<Longrightarrow>
   suffix (rest s') (rest s)"
proof (induction m s rule: lazyStar.induct)
  case (1 m s)
  from "1.prems"(1) have "s' = s \<or> (\<exists>x \<in> set (filter (advanced s) (m s)). s' \<in> set (lazyStar m x))"
    by (subst (asm) lazyStar.simps) auto
  then show ?case
  proof
    assume "s' = s"
    then show ?thesis by simp
  next
    assume "\<exists>x \<in> set (filter (advanced s) (m s)). s' \<in> set (lazyStar m x)"
    then obtain x where x: "x \<in> set (filter (advanced s) (m s))" "s' \<in> set (lazyStar m x)"
      by blast
    from x(1) "1.prems"(2) have "suffix (rest x) (rest s)" by simp
    moreover from "1.IH" [OF x(1) x(2)] "1.prems"(2) have "suffix (rest s') (rest x)" by blast
    ultimately show ?thesis by (rule suffix_order.trans [rotated])
  qed
qed

lemma run_rest: "s' \<in> set (run re s) \<Longrightarrow> suffix (rest s') (rest s)"
proof (induction re arbitrary: s s')
  case (Seq r1 r2)
  from Seq.prems obtain x where x: "x \<in> set (run r1 s)" "s' \<in> set (run r2 x)"
    by auto
  from Seq.IH(2) [OF x(2)] Seq.IH(1) [OF x(1)] show ?case
    by (rule suffix_order.trans)
next
  case (Star r)
  from Star.prems have "s' \<in> set (greedyStar (run r) s)" by simp
  then show ?case by (rule greedyStar_rest) (rule Star.IH)
next
  case (LazyStar r)
  from LazyStar.prems have "s' \<in> set (lazyStar (run r) s)" by simp
  then show ?case by (rule lazyStar_rest) (rule LazyStar.IH)
next
  case (Plus r)
  from Plus.prems obtain x where x: "x \<in> set (run r s)" "s' \<in> set (greedyStar (run r) x)"
    by auto
  from x(2) have "suffix (rest s') (rest x)" by (rule greedyStar_rest) (rule Plus.IH)
  from this Plus.IH [OF x(1)] show ?case
    by (rule suffix_order.trans)
next
  case (Group k r)
  then show ?case by (auto simp: capture_def)
qed (auto dest: consume_rest split: if_splits)

lemma capture_consumed:
  assumes "s' \<in> set (run re s)"
  shows "rest s = the (caps (capture n s s') n) @ rest s'"
proof -
  from run_rest [OF assms] obtain u where u: "rest s = u @ rest s'"
    by (auto simp: suffix_def)
  then have "take (length (rest s) - length (rest s')) (rest s) = u" by simp
  with u show ?thesis by (simp add: capture_def)
qed

section \<open>The matcher on examples\<close>

text \<open>
  The greedy star takes the longest text and the lazy star the shortest; of two
  alternatives the left one is tried first; \<open>\b\<close> holds between a word character and
  what is not one; the flag \<open>i\<close> ignores the case of letters.
\<close>

lemma regexMatch_greedy:
  "map_option (\<lambda>m. (m 0, m 1)) (regexMatch (seqs [Group 1 (Star Dot), Lit (CHR ''b'')]) ''xabab.'')
     = Some (Some ''xabab'', Some ''xaba'')"
  by code_simp

lemma regexMatch_lazy:
  "map_option (\<lambda>m. (m 0, m 1)) (regexMatch (seqs [Group 1 (LazyStar Dot), Lit (CHR ''b'')]) ''xabab.'')
     = Some (Some ''xab'', Some ''xa'')"
  by code_simp

lemma regexMatch_alternatives:
  "map_option (\<lambda>m. (m 0, m 1, m 2, m 3))
     (regexMatch (seqs [Group 1 (alts [str ''a'', str ''ab'']), Group 2 (alts [str ''c'', str ''bcd'']),
                        Group 3 (Star (Lit (CHR ''d'')))]) ''abcd'')
     = Some (Some ''abcd'', Some ''a'', Some ''bcd'', Some [])"
  by code_simp

lemma test_word_boundary:
  "test (seqs [WordB, str ''is'', WordB]) ''this IS it''
   \<and> \<not> test (seqs [WordB, str ''is'', WordB]) ''this isle''"
  by code_simp

lemma regexMatch_show_where:
  "map_option (\<lambda>m. m 1)
     (regexMatch (seqs [str ''show'', ws1, Opt (seqs [str ''me'', ws1]), Group 1 (LazyStar Dot), ws1,
                        str ''where'']) ''Show me name, age  WHERE id > 3'')
     = Some (Some ''name, age'')"
  by code_simp

lemma regexMatch_unset_group:
  "map_option (\<lambda>m. (m 1, m 2))
     (regexMatch (seqs [alts [str ''order by'', str ''sort by''], ws1, Group 1 word1,
                        Opt (seqs [ws1, Group 2 (alts [str ''asc'', str ''desc''])])]) ''sort by age'')
     = Some (Some ''age'', None)"
  by code_simp

section \<open>Captures of a match\<close>

lemma consume_caps: "s' \<in> set (consume P s) \<Longrightarrow> caps s' = caps s"
  by (auto simp: consume_def split: list.splits if_splits)

lemma greedyStar_caps:
  "s' \<in> set (greedyStar m s) \<Longrightarrow> caps s n \<noteq> None \<Longrightarrow>
   (\<And>t t'. t' \<in> set (m t) \<Longrightarrow> caps t n \<noteq> None \<Longrightarrow> caps t' n \<noteq> None) \<Longrightarrow>
   caps s' n \<noteq> None"
proof (induction m s rule: greedyStar.induct)
  case (1 m s)
  from "1.prems"(1) have "s' = s \<or> (\<exists>x \<in> set (filter (advanced s) (m s)). s' \<in> set (greedyStar m x))"
    by (subst (asm) greedyStar.simps) auto
  then show ?case
  proof
    assume "s' = s"
    with "1.prems"(2) show ?thesis by simp
  next
    assume "\<exists>x \<in> set (filter (advanced s) (m s)). s' \<in> set (greedyStar m x)"
    then obtain x where x: "x \<in> set (filter (advanced s) (m s))" "s' \<in> set (greedyStar m x)"
      by blast
    from x(1) have "x \<in> set (m s)" by simp
    with "1.prems"(2) "1.prems"(3) have "caps x n \<noteq> None" by blast
    with "1.IH" [OF x(1) x(2)] "1.prems"(3) show ?thesis by blast
  qed
qed

lemma lazyStar_caps:
  "s' \<in> set (lazyStar m s) \<Longrightarrow> caps s n \<noteq> None \<Longrightarrow>
   (\<And>t t'. t' \<in> set (m t) \<Longrightarrow> caps t n \<noteq> None \<Longrightarrow> caps t' n \<noteq> None) \<Longrightarrow>
   caps s' n \<noteq> None"
proof (induction m s rule: lazyStar.induct)
  case (1 m s)
  from "1.prems"(1) have "s' = s \<or> (\<exists>x \<in> set (filter (advanced s) (m s)). s' \<in> set (lazyStar m x))"
    by (subst (asm) lazyStar.simps) auto
  then show ?case
  proof
    assume "s' = s"
    with "1.prems"(2) show ?thesis by simp
  next
    assume "\<exists>x \<in> set (filter (advanced s) (m s)). s' \<in> set (lazyStar m x)"
    then obtain x where x: "x \<in> set (filter (advanced s) (m s))" "s' \<in> set (lazyStar m x)"
      by blast
    from x(1) have "x \<in> set (m s)" by simp
    with "1.prems"(2) "1.prems"(3) have "caps x n \<noteq> None" by blast
    with "1.IH" [OF x(1) x(2)] "1.prems"(3) show ?thesis by blast
  qed
qed

lemma run_caps:
  "s' \<in> set (run re s) \<Longrightarrow> alwaysCaptures n re \<or> caps s n \<noteq> None \<Longrightarrow> caps s' n \<noteq> None"
proof (induction re arbitrary: s s')
  case (Seq r1 r2)
  from Seq.prems(1) obtain x where x: "x \<in> set (run r1 s)" "s' \<in> set (run r2 x)"
    by auto
  show ?case
  proof (cases "alwaysCaptures n r1 \<or> caps s n \<noteq> None")
    case True
    with Seq.IH(1) [OF x(1)] have "caps x n \<noteq> None" by blast
    with Seq.IH(2) [OF x(2)] show ?thesis by blast
  next
    case False
    with Seq.prems(2) have "alwaysCaptures n r2" by simp
    with Seq.IH(2) [OF x(2)] show ?thesis by blast
  qed
next
  case (Alt r1 r2)
  then show ?case by auto
next
  case (Star r)
  from Star.prems(2) have c: "caps s n \<noteq> None" by simp
  have step: "\<And>t t'. t' \<in> set (run r t) \<Longrightarrow> caps t n \<noteq> None \<Longrightarrow> caps t' n \<noteq> None"
    using Star.IH by blast
  from Star.prems(1) have "s' \<in> set (greedyStar (run r) s)" by simp
  from greedyStar_caps [OF this c step] show ?case .
next
  case (LazyStar r)
  from LazyStar.prems(2) have c: "caps s n \<noteq> None" by simp
  have step: "\<And>t t'. t' \<in> set (run r t) \<Longrightarrow> caps t n \<noteq> None \<Longrightarrow> caps t' n \<noteq> None"
    using LazyStar.IH by blast
  from LazyStar.prems(1) have "s' \<in> set (lazyStar (run r) s)" by simp
  from lazyStar_caps [OF this c step] show ?case .
next
  case (Plus r)
  from Plus.prems(1) obtain x where x: "x \<in> set (run r s)" "s' \<in> set (greedyStar (run r) x)"
    by auto
  from Plus.IH [OF x(1)] Plus.prems(2) have c: "caps x n \<noteq> None" by simp
  have step: "\<And>t t'. t' \<in> set (run r t) \<Longrightarrow> caps t n \<noteq> None \<Longrightarrow> caps t' n \<noteq> None"
    using Plus.IH by blast
  from greedyStar_caps [OF x(2) c step] show ?case .
next
  case (Opt r)
  then show ?case by auto
next
  case (Group k r)
  from Group.prems(1) obtain x where x: "x \<in> set (run r s)" "s' = capture k s x"
    by auto
  show ?case
  proof (cases "k = n")
    case True
    with x(2) show ?thesis by (simp add: capture_def)
  next
    case False
    with Group.prems(2) Group.IH [OF x(1)] have "caps x n \<noteq> None" by auto
    with x(2) show ?thesis by (simp add: capture_def)
  qed
qed (auto dest: consume_caps split: if_splits)

lemma execFrom_captures:
  "execFrom re p s = Some m \<Longrightarrow> alwaysCaptures n re \<Longrightarrow> m n \<noteq> None"
proof (induction re p s rule: execFrom.induct)
  case (1 re p s)
  show ?case
  proof (cases "run re \<lparr>prev = p, rest = s, caps = Map.empty\<rparr>")
    case Nil
    with "1.prems"(1) obtain c cs where s: "s = c # cs" and e: "execFrom re (Some c) cs = Some m"
      by (subst (asm) execFrom.simps) (auto split: list.splits)
    from "1.IH" [OF Nil s e "1.prems"(2)] show ?thesis .
  next
    case (Cons x xs)
    with "1.prems"(1) have m: "m = (caps x)(0 \<mapsto> take (length s - length (rest x)) s)"
      by (subst (asm) execFrom.simps) auto
    from Cons have "x \<in> set (run re \<lparr>prev = p, rest = s, caps = Map.empty\<rparr>)" by simp
    from run_caps [OF this] "1.prems"(2) have "caps x n \<noteq> None" by blast
    with m show ?thesis by simp
  qed
qed

lemma regexMatch_captures:
  "regexMatch re s = Some m \<Longrightarrow> alwaysCaptures n re \<Longrightarrow> \<exists>w. m n = Some w"
  using execFrom_captures [of re None s m n] by (auto simp: regexMatch_def)


section \<open>The WHERE-condition extractor raises nothing\<close>

lemma resolveCapture_Some: "resolveCapture (Some w) columnNames = Inr (findBestColumnMatch w columnNames)"
  by (simp add: resolveCapture_def)

lemma conditionPatterns_handlers_all:
  "list_all (\<lambda>(re, handler).
              alwaysCaptures 1 re \<longrightarrow> (\<exists>w. match 1 = Some w) \<longrightarrow> (\<exists>c. handler match = Inr c))
            (conditionPatterns columnNames)
   \<and> (\<exists>c. snd (last (conditionPatterns columnNames)) match = Inr c)
   \<and> list_all (\<lambda>(re, handler). alwaysCaptures 1 re) (butlast (conditionPatterns columnNames))"
  by (auto simp: conditionPatterns_def resolveCapture_Some Let_def)

lemma conditionPatterns_handlers:
  assumes "(re, handler) \<in> set (conditionPatterns columnNames)"
    and "regexMatch re s = Some match"
  shows "\<exists>c. handler match = Inr c"
proof (cases "(re, handler) \<in> set (butlast (conditionPatterns columnNames))")
  case True
  with conditionPatterns_handlers_all [of match columnNames] have a: "alwaysCaptures 1 re"
    by (auto simp: list_all_iff)
  from regexMatch_captures [OF assms(2) a] have "\<exists>w. match 1 = Some w" .
  with a assms(1) conditionPatterns_handlers_all [of match columnNames] show ?thesis
    by (auto simp: list_all_iff)
next
  case False
  have "conditionPatterns columnNames \<noteq> []"
    by (simp add: conditionPatterns_def)
  then have "conditionPatterns columnNames
               = butlast (conditionPatterns columnNames) @ [last (conditionPatterns columnNames)]"
    by simp
  with False assms(1) have "(re, handler) = last (conditionPatterns columnNames)"
    by (metis Un_iff empty_iff empty_set set_ConsD set_append)
  then have "handler = snd (last (conditionPatterns columnNames))"
    by (metis snd_conv)
  with conditionPatterns_handlers_all [of match columnNames] show ?thesis
    by blast
qed

lemma collectConditions_Inr:
  assumes "\<And>re handler match. (re, handler) \<in> set ps \<Longrightarrow> regexMatch re text = Some match
             \<Longrightarrow> \<exists>c. handler match = Inr c"
  shows "\<exists>new. collectConditions ps text acc = Inr (acc @ new) \<and> [] \<notin> set new"
  using assms
proof (induction ps arbitrary: acc)
  case Nil
  show ?case by simp
next
  case (Cons p ps)
  obtain re handler where p: "p = (re, handler)" by (cases p)
  have rest: "\<And>a. \<exists>new. collectConditions ps text a = Inr (a @ new) \<and> [] \<notin> set new"
    using Cons.IH Cons.prems by (meson list.set_intros(2))
  show ?case
  proof (cases "regexMatch re text")
    case None
    with p rest [of acc] show ?thesis by simp
  next
    case (Some match)
    with Cons.prems [of re handler match] p obtain c where c: "handler match = Inr c"
      by auto
    show ?thesis
    proof (cases "truthy c")
      case False
      with p Some c rest [of acc] show ?thesis by simp
    next
      case True
      then obtain k where k: "c = Some k" "k \<noteq> []"
        by (auto simp: truthy_def split: option.splits)
      from rest [of "acc @ [k]"] obtain new where
        new: "collectConditions ps text (acc @ [k]) = Inr ((acc @ [k]) @ new)" "[] \<notin> set new"
        by blast
      from p Some c True k new have "collectConditions (p # ps) text acc = Inr (acc @ (k # new))"
        by simp
      moreover from k new have "[] \<notin> set (k # new)" by auto
      ultimately show ?thesis by blast
    qed
  qed
qed

lemma extractWhereConditions_Inr:
  "\<exists>c. extractWhereConditions text columnNames columnTypes = Inr c \<and>
       (c = None \<or> (\<exists>conds. conds \<noteq> [] \<and> [] \<notin> set conds \<and> c = Some (join '' AND '' conds)))"
proof -
  have "\<exists>new. collectConditions (conditionPatterns columnNames) text [] = Inr ([] @ new)
           \<and> [] \<notin> set new"
    by (rule collectConditions_Inr) (rule conditionPatterns_handlers)
  then obtain new where
    new: "collectConditions (conditionPatterns columnNames) text [] = Inr new" "[] \<notin> set new"
    by auto
  show ?thesis
  proof (cases "new = []")
    case True
    with new show ?thesis by (simp add: extractWhereConditions_def)
  next
    case False
    with new have "extractWhereConditions text columnNames columnTypes = Inr (Some (join '' AND '' new))"
      by (simp add: extractWhereConditions_def)
    with False new(2) show ?thesis by blast
  qed
qed


lemma tryPatterns_error: "tryPatterns rules lowerText s = Some r \<Longrightarrow> error r = None"
  by (induction rules) (auto split: if_splits sum.splits)

text \<open>
  C9.  For every phrase and every list of column names the WHERE-condition extractor
  raises nothing: it returns null, or the conditions of a non-empty list, none of them
  empty, joined with `` AND ''.  So the catch branch of the fallback is never taken: the
  translation carries no error.
\<close>

theorem extractWhereConditions_never_throws:
  "(\<exists>c. extractWhereConditions text columnNames columnTypes = Inr c \<and>
        (c = None \<or>
         (\<exists>conds. conds \<noteq> [] \<and> [] \<notin> set conds \<and> c = Some (join '' AND '' conds))))
   \<and> (\<exists>r. generateSQLFromText text table columnNames columnTypes = Inr r \<and> error r = None)"
proof
  show "\<exists>c. extractWhereConditions text columnNames columnTypes = Inr c \<and>
        (c = None \<or>
         (\<exists>conds. conds \<noteq> [] \<and> [] \<notin> set conds \<and> c = Some (join '' AND '' conds)))"
    by (rule extractWhereConditions_Inr)
next
  obtain c where c: "extractWhereConditions text columnNames columnTypes = Inr c"
    using extractWhereConditions_Inr by blast
  show "\<exists>r. generateSQLFromText text table columnNames columnTypes = Inr r \<and> error r = None"
  proof (cases "tryPatterns (patterns table columnNames columnTypes) (trim (toLowerCase text)) text")
    case None
    with c show ?thesis by (simp add: generateSQLFromText_def)
  next
    case (Some r)
    with tryPatterns_error [OF Some] show ?thesis by (simp add: generateSQLFromText_def)
  qed
qed

section \<open>The aggregate-column extractor\<close>

lemma aggregateKeywordColumn_Inr:
  "\<exists>c. aggregateKeywordColumn keywords text columnNames = Inr c \<and>
       (c = None \<or> (\<exists>k. c = Some k \<and> k \<in> set columnNames))"
proof (induction "keywords")
  case Nil
  show ?case by simp
next
  case (Cons kw kws)
  let ?re = "seqs [WordB, str kw, WordB, LazyStar Dot, WordB, Group 1 word1, WordB]"
  show ?case
  proof (cases "regexMatch ?re text")
    case None
    with Cons.IH show ?thesis by simp
  next
    case (Some match)
    have "alwaysCaptures 1 ?re" by simp
    from regexMatch_captures [OF Some this] obtain w where w: "match 1 = Some w" by blast
    show ?thesis
    proof (cases "truthy (findBestColumnMatch w columnNames)")
      case True
      then obtain k where k: "findBestColumnMatch w columnNames = Some k"
        by (auto simp: truthy_def split: option.splits)
      with findBestColumnMatch_member [OF k] Some w True show ?thesis
        by (simp add: resolveCapture_Some)
    next
      case False
      with Some w Cons.IH show ?thesis by (simp add: resolveCapture_Some)
    qed
  qed
qed

lemma first_numericColumns:
  assumes "first (numericColumns columnNames) = Some n"
  shows "n \<in> set columnNames \<and> n \<noteq> []"
proof -
  from assms have "n \<in> set (numericColumns columnNames)"
    by (auto simp: first_def split: list.splits)
  then have m: "n \<in> set columnNames"
    and h: "includesStr (toLowerCase n) ''id'' \<or> includesStr (toLowerCase n) ''age'' \<or>
            includesStr (toLowerCase n) ''salary'' \<or> includesStr (toLowerCase n) ''price'' \<or>
            includesStr (toLowerCase n) ''amount''"
    by (auto simp: numericColumns_def)
  from h have "n \<noteq> []"
    by (cases n) (auto simp: toLowerCase_def)
  with m show ?thesis by simp
qed

text \<open>
  The loop over the keywords finds the word that the scan of the phrase finds: the match
  of the regular expression of a keyword is followed through its parts.
\<close>

lemma wordBefore_simps: "wordBefore None = False" "wordBefore (Some c) = isWordChar c"
  by (simp_all add: wordBefore_def)

lemma word_not_terminator: "isWordChar c \<Longrightarrow> \<not> isLineTerminator c"
  by (cases c) (auto simp: isWordChar_Char isLineTerminator_Char)

lemma atWordBoundary_wordBoundary:
  "atWordBoundary t = wordBoundary (wordBefore (prev t)) (rest t)"
  by (simp add: atWordBoundary_def wordBoundary_def wordBefore_def)

lemma run_seqs_Cons: "run (seqs (r # rs)) t = concat (map (run (seqs rs)) (run r t))"
proof -
  have "run Eps = (\<lambda>s. [s])" by (rule ext) simp
  then show ?thesis by (cases rs) simp_all
qed

lemma run_str:
  "case readKeyword k (wordBefore (prev t)) (rest t) of
     None \<Rightarrow> run (str k) t = []
   | Some (b', r) \<Rightarrow> \<exists>t'. run (str k) t = [t'] \<and> rest t' = r \<and> wordBefore (prev t') = b'"
proof (induction k arbitrary: t)
  case Nil
  show ?case by (simp add: str_def)
next
  case (Cons a k)
  show ?case
  proof (cases "rest t")
    case Nil
    then show ?thesis by (simp add: str_def run_seqs_Cons consume_def)
  next
    case (Cons c s)
    show ?thesis
    proof (cases "toUpperChar a = toUpperChar c")
      case False
      with Cons show ?thesis by (simp add: str_def run_seqs_Cons consume_def)
    next
      case True
      let ?t1 = "t\<lparr>prev := Some c, rest := s\<rparr>"
      from True Cons have r: "run (str (a # k)) t = run (str k) ?t1"
        by (simp add: str_def run_seqs_Cons consume_def)
      from Cons.IH [of ?t1] True Cons r show ?thesis
        by (auto simp: wordBefore_simps split: option.splits)
    qed
  qed
qed

lemma take_takeWhile: "take (length s - length (dropWhile P s)) s = takeWhile P s"
proof -
  have "length s = length (takeWhile P s) + length (dropWhile P s)"
    by (metis length_append takeWhile_dropWhile_id)
  then have "length s - length (dropWhile P s) = length (takeWhile P s)"
    by simp
  then show ?thesis
    by (metis append_eq_conv_conj takeWhile_dropWhile_id)
qed

lemma run_word_class: "run (OneOf [CWord]) = consume isWordChar"
  by (rule ext) simp

lemma greedyStar_word:
  assumes "rest t = s"
  shows "\<exists>x xs. greedyStar (consume isWordChar) t = x # xs \<and> rest x = dropWhile isWordChar s \<and>
           (case s of [] \<Rightarrow> x = t | c # _ \<Rightarrow> if isWordChar c then wordBefore (prev x) else x = t)"
  using assms
proof (induction s arbitrary: t)
  case Nil
  then have "consume isWordChar t = []"
    by (simp add: consume_def)
  then have "greedyStar (consume isWordChar) t = [t]"
    by (subst greedyStar.simps) simp
  with Nil show ?case by simp
next
  case (Cons c s)
  show ?case
  proof (cases "isWordChar c")
    case False
    with Cons.prems have "consume isWordChar t = []"
      by (simp add: consume_def)
    then have "greedyStar (consume isWordChar) t = [t]"
      by (subst greedyStar.simps) simp
    with False Cons.prems show ?thesis by simp
  next
    case True
    let ?t1 = "t\<lparr>prev := Some c, rest := s\<rparr>"
    from True Cons.prems have "consume isWordChar t = [?t1]"
      by (simp add: consume_def)
    moreover from Cons.prems have "advanced t ?t1"
      by (simp add: advanced_def)
    ultimately have g: "greedyStar (consume isWordChar) t
                          = greedyStar (consume isWordChar) ?t1 @ [t]"
      by (subst greedyStar.simps) simp
    have "rest ?t1 = s" by simp
    from Cons.IH [OF this] obtain x xs
      where x: "greedyStar (consume isWordChar) ?t1 = x # xs"
        and r: "rest x = dropWhile isWordChar s"
        and p: "case s of [] \<Rightarrow> x = ?t1
                | d # _ \<Rightarrow> if isWordChar d then wordBefore (prev x) else x = ?t1"
      by blast
    from p True have "wordBefore (prev x)"
      by (auto simp: wordBefore_simps split: list.splits if_splits)
    with g x r True show ?thesis by simp
  qed
qed

lemma run_word_here:
  assumes t: "rest t = c # s" and c: "isWordChar c" and b: "\<not> wordBefore (prev t)"
  shows "\<exists>x xs. run (seqs [WordB, Group 1 word1, WordB]) t = x # xs \<and>
                caps x 1 = Some (takeWhile isWordChar (c # s))"
proof -
  let ?W = "consume isWordChar"
  let ?t1 = "t\<lparr>prev := Some c, rest := s\<rparr>"
  from t c b have bt: "atWordBoundary t"
    by (simp add: atWordBoundary_wordBoundary wordBoundary_def)
  from t c have w: "?W t = [?t1]"
    by (simp add: consume_def)
  have "rest ?t1 = s" by simp
  from greedyStar_word [OF this] obtain x xs
    where x: "greedyStar ?W ?t1 = x # xs"
      and r: "rest x = dropWhile isWordChar s"
      and p: "case s of [] \<Rightarrow> x = ?t1
              | d # _ \<Rightarrow> if isWordChar d then wordBefore (prev x) else x = ?t1"
    by blast
  from p c have px: "wordBefore (prev x)"
    by (auto simp: wordBefore_simps split: list.splits if_splits)
  let ?x = "capture 1 t x"
  have "length (dropWhile isWordChar s) \<le> length s"
    by (rule length_dropWhile_le)
  then have "length (c # s) - length (dropWhile isWordChar s)
               = Suc (length s - length (dropWhile isWordChar s))"
    by simp
  with t r c have cx: "caps ?x 1 = Some (takeWhile isWordChar (c # s))"
    by (simp add: capture_def take_takeWhile)
  have "\<not> isWordChar d" if "dropWhile isWordChar s = d # ds" for d ds
    using hd_dropWhile [of isWordChar s] that by simp
  then have "\<not> (case dropWhile isWordChar s of [] \<Rightarrow> False | d # _ \<Rightarrow> isWordChar d)"
    by (simp split: list.splits)
  with px r have bx: "atWordBoundary ?x"
    by (simp add: atWordBoundary_wordBoundary wordBoundary_def capture_def)
  from bt w x have "run (seqs [WordB, Group 1 word1, WordB]) t
                      = concat (map (run WordB) (?x # map (capture 1 t) xs))"
    by (simp add: run_word_class)
  with bx have "run (seqs [WordB, Group 1 word1, WordB]) t
                  = ?x # concat (map (run WordB) (map (capture 1 t) xs))"
    by simp
  with cx show ?thesis by blast
qed

lemma run_word_none:
  assumes "case rest t of [] \<Rightarrow> True | c # _ \<Rightarrow> isWordChar c \<longrightarrow> wordBefore (prev t)"
  shows "run (seqs [WordB, Group 1 word1, WordB]) t = []"
proof (cases "rest t")
  case Nil
  then have "consume isWordChar t = []"
    by (simp add: consume_def)
  then show ?thesis by simp
next
  case (Cons c s)
  show ?thesis
  proof (cases "isWordChar c")
    case False
    with Cons have "consume isWordChar t = []"
      by (simp add: consume_def)
    then show ?thesis by simp
  next
    case True
    with Cons assms have "\<not> atWordBoundary t"
      by (simp add: atWordBoundary_wordBoundary wordBoundary_def)
    then show ?thesis by simp
  qed
qed

lemma concat_map_concat_map:
  "concat (map f (concat (map g xs))) = concat (map (\<lambda>x. concat (map f (g x))) xs)"
  by (induction xs) simp_all

lemma run_lazy_dot:
  "run (Seq (LazyStar Dot) r) u
     = run r u @ concat (map (run (Seq (LazyStar Dot) r)) (filter (advanced u) (run Dot u)))"
proof -
  have l: "lazyStar (run Dot) u
             = u # concat (map (lazyStar (run Dot)) (filter (advanced u) (run Dot u)))"
    by (rule lazyStar.simps)
  have m: "run (Seq (LazyStar Dot) r) = (\<lambda>v. concat (map (run r) (lazyStar (run Dot) v)))"
    by (rule ext) simp
  have "run (Seq (LazyStar Dot) r) u = concat (map (run r) (lazyStar (run Dot) u))"
    by simp
  also have "\<dots> = run r u @ concat (map (run r)
               (concat (map (lazyStar (run Dot)) (filter (advanced u) (run Dot u)))))"
    by (subst l) simp
  also have "\<dots> = run r u @ concat (map (run (Seq (LazyStar Dot) r))
                                       (filter (advanced u) (run Dot u)))"
    by (simp only: m concat_map_concat_map)
  finally show ?thesis .
qed

lemma run_nextWord:
  assumes "rest t = s"
  shows "case nextWord (wordBefore (prev t)) s of
           None \<Rightarrow> run (Seq (LazyStar Dot) (seqs [WordB, Group 1 word1, WordB])) t = []
         | Some w \<Rightarrow>
             \<exists>x xs. run (Seq (LazyStar Dot) (seqs [WordB, Group 1 word1, WordB])) t = x # xs \<and>
                    caps x 1 = Some w"
  using assms
proof (induction s arbitrary: t)
  case Nil
  let ?K = "seqs [WordB, Group 1 word1, WordB]"
  from Nil have d: "run Dot t = []"
    by (simp add: consume_def)
  from Nil have K: "run ?K t = []"
    by (intro run_word_none) simp
  have "run (Seq (LazyStar Dot) ?K) t = []"
    by (subst run_lazy_dot) (simp only: K d filter.simps list.map concat.simps append_Nil)
  then show ?case
    by (simp only: nextWord.simps option.case)
next
  case (Cons c s)
  let ?K = "seqs [WordB, Group 1 word1, WordB]"
  let ?t1 = "t\<lparr>prev := Some c, rest := s\<rparr>"
  show ?case
  proof (cases "isWordChar c \<and> \<not> wordBefore (prev t)")
    case True
    with run_word_here [of t c s] Cons.prems obtain x xs
      where kx: "run ?K t = x # xs" and cx: "caps x 1 = Some (takeWhile isWordChar (c # s))"
      by blast
    have "run (Seq (LazyStar Dot) ?K) t
            = x # (xs @ concat (map (run (Seq (LazyStar Dot) ?K)) (filter (advanced t) (run Dot t))))"
      by (subst run_lazy_dot) (simp only: kx append_Cons)
    with cx have "\<exists>x xs. run (Seq (LazyStar Dot) ?K) t = x # xs \<and>
                         caps x 1 = Some (takeWhile isWordChar (c # s))"
      by blast
    moreover from True
    have "nextWord (wordBefore (prev t)) (c # s) = Some (takeWhile isWordChar (c # s))"
      by simp
    ultimately show ?thesis
      by (simp only: option.case)
  next
    case False
    with Cons.prems have K: "run ?K t = []"
      by (intro run_word_none) auto
    show ?thesis
    proof (cases "isLineTerminator c")
      case True
      with Cons.prems have d: "run Dot t = []"
        by (simp add: consume_def)
      have "run (Seq (LazyStar Dot) ?K) t = []"
        by (subst run_lazy_dot) (simp only: K d filter.simps list.map concat.simps append_Nil)
      moreover from True False have "nextWord (wordBefore (prev t)) (c # s) = None"
        by auto
      ultimately show ?thesis
        by (simp only: option.case)
    next
      case nl: False
      with Cons.prems have d: "run Dot t = [?t1]"
        by (simp add: consume_def)
      from Cons.prems have a: "advanced t ?t1"
        by (simp add: advanced_def)
      have e: "run (Seq (LazyStar Dot) ?K) t = run (Seq (LazyStar Dot) ?K) ?t1"
        by (subst run_lazy_dot)
           (simp only: K d a filter.simps if_True list.map concat.simps append_Nil append_Nil2)
      have "rest ?t1 = s" by simp
      from Cons.IH [OF this]
      have IH: "case nextWord (isWordChar c) s of
                  None \<Rightarrow> run (Seq (LazyStar Dot) ?K) ?t1 = []
                | Some w \<Rightarrow> \<exists>x xs. run (Seq (LazyStar Dot) ?K) ?t1 = x # xs \<and> caps x 1 = Some w"
        by (simp add: wordBefore_simps del: seqs.simps run.simps One_nat_def)
      from nl False have n: "nextWord (wordBefore (prev t)) (c # s) = nextWord (isWordChar c) s"
        by auto
      show ?thesis
        unfolding n e by (rule IH)
    qed
  qed
qed

lemma run_wordAfterHere:
  "case wordAfterHere k (wordBefore (prev t)) (rest t) of
     None \<Rightarrow> run (seqs [WordB, str k, WordB, LazyStar Dot, WordB, Group 1 word1, WordB]) t = []
   | Some w \<Rightarrow>
       \<exists>x xs. run (seqs [WordB, str k, WordB, LazyStar Dot, WordB, Group 1 word1, WordB]) t = x # xs \<and>
              caps x 1 = Some w"
proof -
  let ?G = "Seq (LazyStar Dot) (seqs [WordB, Group 1 word1, WordB])"
  let ?R = "seqs [WordB, str k, WordB, LazyStar Dot, WordB, Group 1 word1, WordB]"
  have r1: "run ?R t = (if atWordBoundary t
                        then concat (map (run (Seq WordB ?G)) (run (str k) t)) else [])"
    by simp
  have r2: "run (Seq WordB ?G) u = (if atWordBoundary u then run ?G u else [])" for u
    by simp
  show ?thesis
  proof (cases "atWordBoundary t")
    case False
    then have "run ?R t = []"
      by (simp only: r1 if_False)
    moreover from False have "wordAfterHere k (wordBefore (prev t)) (rest t) = None"
      by (simp add: wordAfterHere_def atWordBoundary_wordBoundary)
    ultimately show ?thesis
      by (simp only: option.case)
  next
    case True
    then have rr: "run ?R t = concat (map (run (Seq WordB ?G)) (run (str k) t))"
      by (simp only: r1 if_True)
    show ?thesis
    proof (cases "readKeyword k (wordBefore (prev t)) (rest t)")
      case None
      with run_str [of k t] have "run (str k) t = []"
        by simp
      then have "run ?R t = []"
        by (simp only: rr list.map concat.simps)
      moreover from None True have "wordAfterHere k (wordBefore (prev t)) (rest t) = None"
        by (simp add: wordAfterHere_def atWordBoundary_wordBoundary)
      ultimately show ?thesis
        by (simp only: option.case)
    next
      case (Some br)
      obtain b' r' where br: "br = (b', r')"
        by (cases br)
      with run_str [of k t] Some obtain t'
        where t': "run (str k) t = [t']" "rest t' = r'" "wordBefore (prev t') = b'"
        by auto
      have e: "run ?R t = (if atWordBoundary t' then run ?G t' else [])"
        by (simp only: rr t'(1) list.map concat.simps append_Nil2 r2)
      show ?thesis
      proof (cases "atWordBoundary t'")
        case False
        with e have "run ?R t = []"
          by (simp only: if_False)
        moreover from False t' Some br True
        have "wordAfterHere k (wordBefore (prev t)) (rest t) = None"
          by (simp add: wordAfterHere_def atWordBoundary_wordBoundary)
        ultimately show ?thesis
          by (simp only: option.case)
      next
        case bt: True
        with e have e': "run ?R t = run ?G t'"
          by (simp only: if_True)
        from bt t' Some br True
        have w: "wordAfterHere k (wordBefore (prev t)) (rest t) = nextWord b' r'"
          by (simp add: wordAfterHere_def atWordBoundary_wordBoundary)
        from run_nextWord [OF t'(2)]
        have "case nextWord b' r' of
                None \<Rightarrow> run ?G t' = []
              | Some w \<Rightarrow> \<exists>x xs. run ?G t' = x # xs \<and> caps x 1 = Some w"
          by (simp only: t'(3))
        then show ?thesis
          unfolding w e' .
      qed
    qed
  qed
qed

lemma execFrom_no_match:
  "run re \<lparr>prev = p, rest = s, caps = Map.empty\<rparr> = [] \<Longrightarrow>
   execFrom re p s = (case s of [] \<Rightarrow> None | c # cs \<Rightarrow> execFrom re (Some c) cs)"
  by (subst execFrom.simps) simp

lemma execFrom_match:
  "run re \<lparr>prev = p, rest = s, caps = Map.empty\<rparr> = x # xs \<Longrightarrow>
   execFrom re p s = Some ((caps x)(0 \<mapsto> take (length s - length (rest x)) s))"
  by (subst execFrom.simps) simp

lemma execFrom_at:
  "case wordAfterHere k (wordBefore p) s of
     None \<Rightarrow>
       execFrom (seqs [WordB, str k, WordB, LazyStar Dot, WordB, Group 1 word1, WordB]) p s
         = (case s of
              [] \<Rightarrow> None
            | c # cs \<Rightarrow>
                execFrom (seqs [WordB, str k, WordB, LazyStar Dot, WordB, Group 1 word1, WordB])
                  (Some c) cs)
   | Some w \<Rightarrow>
       \<exists>m. execFrom (seqs [WordB, str k, WordB, LazyStar Dot, WordB, Group 1 word1, WordB]) p s
             = Some m \<and> m 1 = Some w"
proof -
  let ?R = "seqs [WordB, str k, WordB, LazyStar Dot, WordB, Group 1 word1, WordB]"
  let ?t = "\<lparr>prev = p, rest = s, caps = Map.empty\<rparr>"
  have h: "wordAfterHere k (wordBefore (prev ?t)) (rest ?t) = wordAfterHere k (wordBefore p) s"
    by simp
  show ?thesis
  proof (cases "wordAfterHere k (wordBefore p) s")
    case None
    from run_wordAfterHere [of k ?t] have "run ?R ?t = []"
      unfolding h None by (simp only: option.case)
    from execFrom_no_match [OF this] show ?thesis
      unfolding None by (simp only: option.case)
  next
    case (Some w)
    from run_wordAfterHere [of k ?t] have "\<exists>x xs. run ?R ?t = x # xs \<and> caps x 1 = Some w"
      unfolding h Some by (simp only: option.case)
    then obtain x xs where x: "run ?R ?t = x # xs" and cx: "caps x 1 = Some w"
      by blast
    have "((caps x)(0 \<mapsto> take (length s - length (rest x)) s)) 1 = Some w"
      using cx by simp
    with execFrom_match [OF x] have "\<exists>m. execFrom ?R p s = Some m \<and> m 1 = Some w"
      by blast
    then show ?thesis
      unfolding Some by (simp only: option.case)
  qed
qed

lemma execFrom_wordAfter:
  "case wordAfter k (wordBefore p) s of
     None \<Rightarrow>
       execFrom (seqs [WordB, str k, WordB, LazyStar Dot, WordB, Group 1 word1, WordB]) p s = None
   | Some w \<Rightarrow>
       \<exists>m. execFrom (seqs [WordB, str k, WordB, LazyStar Dot, WordB, Group 1 word1, WordB]) p s
             = Some m \<and> m 1 = Some w"
proof (induction s arbitrary: p)
  case Nil
  from execFrom_at [of k p "[]"] show ?case
    by (simp only: wordAfter.simps list.case split: option.splits)
next
  case (Cons c s)
  show ?case
  proof (cases "wordAfterHere k (wordBefore p) (c # s)")
    case None
    from execFrom_at [of k p "c # s"]
    have x: "execFrom (seqs [WordB, str k, WordB, LazyStar Dot, WordB, Group 1 word1, WordB]) p (c # s)
               = execFrom (seqs [WordB, str k, WordB, LazyStar Dot, WordB, Group 1 word1, WordB])
                   (Some c) s"
      unfolding None by (simp only: option.case list.case)
    from None have w: "wordAfter k (wordBefore p) (c # s) = wordAfter k (isWordChar c) s"
      by simp
    from Cons.IH [of "Some c"] show ?thesis
      unfolding w x wordBefore_simps .
  next
    case (Some w)
    from execFrom_at [of k p "c # s"]
    have "\<exists>m. execFrom (seqs [WordB, str k, WordB, LazyStar Dot, WordB, Group 1 word1, WordB])
                p (c # s) = Some m \<and> m 1 = Some w"
      unfolding Some by (simp only: option.case)
    moreover from Some have "wordAfter k (wordBefore p) (c # s) = Some w"
      by simp
    ultimately show ?thesis
      by (simp only: option.case)
  qed
qed

lemma aggregateKeywordColumn_resolved:
  "aggregateKeywordColumn keywords text columnNames
     = Inr (resolvedAfterKeyword keywords text columnNames)"
proof (induction "keywords")
  case Nil
  show ?case by simp
next
  case (Cons kw kws)
  let ?R = "seqs [WordB, str kw, WordB, LazyStar Dot, WordB, Group 1 word1, WordB]"
  show ?case
  proof (cases "wordAfter kw False text")
    case None
    with execFrom_wordAfter [of kw None "text"] have "regexMatch ?R text = None"
      by (simp add: regexMatch_def wordBefore_simps del: seqs.simps One_nat_def)
    with None Cons.IH show ?thesis by simp
  next
    case (Some w)
    with execFrom_wordAfter [of kw None "text"] obtain m
      where "regexMatch ?R text = Some m" "m 1 = Some w"
      by (auto simp: regexMatch_def wordBefore_simps simp del: seqs.simps One_nat_def)
    with Some Cons.IH show ?thesis
      by (simp add: resolveCapture_Some)
  qed
qed

text \<open>
  C4 (as amended).  For every phrase, every list of column names that is not empty and
  every set of keywords that are plain words, the aggregate-column extractor returns a
  column of the list and raises nothing: the column resolved from the word that follows a
  keyword in the phrase if one resolves, else the first column whose lower-cased name
  contains ``id'', ``age'', ``salary'', ``price'' or ``amount'', else the first column of
  the list.
\<close>

theorem extractColumnForAggregate_names_column:
  assumes "columnNames \<noteq> []"
    and "list_all (list_all isWordChar) keywords"
  shows "\<exists>c. extractColumnForAggregate text columnNames keywords = Inr (Some c) \<and>
             c \<in> set columnNames \<and>
             Some c = (case resolvedAfterKeyword keywords text columnNames of
                         Some k \<Rightarrow> Some k
                       | None \<Rightarrow> (case find (\<lambda>col. includesStr (toLowerCase col) ''id'' \<or>
                                                    includesStr (toLowerCase col) ''age'' \<or>
                                                    includesStr (toLowerCase col) ''salary'' \<or>
                                                    includesStr (toLowerCase col) ''price'' \<or>
                                                    includesStr (toLowerCase col) ''amount'')
                                            columnNames of
                                    Some n \<Rightarrow> Some n
                                  | None \<Rightarrow> Some (hd columnNames)))"
proof -
  let ?hint = "\<lambda>col. includesStr (toLowerCase col) ''id'' \<or>
                      includesStr (toLowerCase col) ''age'' \<or>
                      includesStr (toLowerCase col) ''salary'' \<or>
                      includesStr (toLowerCase col) ''price'' \<or>
                      includesStr (toLowerCase col) ''amount''"
  let ?r = "resolvedAfterKeyword keywords text columnNames"
  have ff: "first (numericColumns columnNames) = find ?hint columnNames"
    unfolding numericColumns_def first_def
    by (induction columnNames) auto
  from assms(1) have hd: "first columnNames = Some (hd columnNames)" "hd columnNames \<in> set columnNames"
    by (auto simp: first_def split: list.splits)
  have r: "aggregateKeywordColumn keywords text columnNames = Inr ?r"
    by (rule aggregateKeywordColumn_resolved)
  with aggregateKeywordColumn_Inr [of "keywords" "text" columnNames]
  have rc: "?r = None \<or> (\<exists>k. ?r = Some k \<and> k \<in> set columnNames)"
    by simp
  show ?thesis
  proof (cases ?r)
    case (Some k)
    with r rc show ?thesis by (simp add: extractColumnForAggregate_def)
  next
    case None
    show ?thesis
    proof (cases "find ?hint columnNames")
      case (Some n)
      with ff first_numericColumns [of columnNames n]
      have "n \<in> set columnNames" "truthy (first (numericColumns columnNames))"
        by (auto simp: truthy_def)
      with r None Some ff show ?thesis by (simp add: extractColumnForAggregate_def)
    next
      case nf: None
      with ff have "\<not> truthy (first (numericColumns columnNames))"
        by (simp add: truthy_def)
      with r None nf hd show ?thesis by (simp add: extractColumnForAggregate_def)
    qed
  qed
qed

text \<open>
  The three tiers, one phrase each: the word after the keyword names a column, where the
  second tier alone would give \<open>id\<close>; no word follows the keyword that a column
  resolves, and a column has a hint in its name; neither.
\<close>

theorem extractColumnForAggregate_names_column_witness:
  "resolvedAfterKeyword [''avg'', ''average'', ''mean''] ''average price'' [''id'', ''price'', ''qty'']
     = Some ''price''
   \<and> extractColumnForAggregate ''average price'' [''id'', ''price'', ''qty'']
         [''avg'', ''average'', ''mean'']
       = Inr (Some ''price'')
   \<and> resolvedAfterKeyword [''sum'', ''total''] ''total of all'' [''name'', ''paid'', ''price''] = None
   \<and> extractColumnForAggregate ''total of all'' [''name'', ''paid'', ''price''] [''sum'', ''total'']
       = Inr (Some ''paid'')
   \<and> resolvedAfterKeyword [''max'', ''maximum'', ''highest'', ''largest''] ''the highest''
         [''name'', ''city'']
       = None
   \<and> extractColumnForAggregate ''the highest'' [''name'', ''city'']
         [''max'', ''maximum'', ''highest'', ''largest'']
       = Inr (Some ''name'')"
proof -
  have a1: "[''id'', ''price'', ''qty''] \<noteq> []"
    by simp
  have a2: "list_all (list_all isWordChar) [''avg'', ''average'', ''mean'']"
    by code_simp
  have a3: "resolvedAfterKeyword [''avg'', ''average'', ''mean''] ''average price''
              [''id'', ''price'', ''qty''] = Some ''price''"
    by code_simp
  have b1: "[''name'', ''paid'', ''price''] \<noteq> []"
    by simp
  have b2: "list_all (list_all isWordChar) [''sum'', ''total'']"
    by code_simp
  have b3: "resolvedAfterKeyword [''sum'', ''total''] ''total of all'' [''name'', ''paid'', ''price'']
             = None"
    by code_simp
  have b4: "find (\<lambda>col. includesStr (toLowerCase col) ''id'' \<or>
                        includesStr (toLowerCase col) ''age'' \<or>
                        includesStr (toLowerCase col) ''salary'' \<or>
                        includesStr (toLowerCase col) ''price'' \<or>
                        includesStr (toLowerCase col) ''amount'')
             [''name'', ''paid'', ''price''] = Some ''paid''"
    by code_simp
  have c1: "[''name'', ''city''] \<noteq> []"
    by simp
  have c2: "list_all (list_all isWordChar) [''max'', ''maximum'', ''highest'', ''largest'']"
    by code_simp
  have c3: "resolvedAfterKeyword [''max'', ''maximum'', ''highest'', ''largest''] ''the highest''
              [''name'', ''city''] = None"
    by code_simp
  have c4: "find (\<lambda>col. includesStr (toLowerCase col) ''id'' \<or>
                        includesStr (toLowerCase col) ''age'' \<or>
                        includesStr (toLowerCase col) ''salary'' \<or>
                        includesStr (toLowerCase col) ''price'' \<or>
                        includesStr (toLowerCase col) ''amount'')
             [''name'', ''city''] = None"
    by code_simp
  from extractColumnForAggregate_names_column [OF a1 a2, of "''average price''"] a3
  have a: "extractColumnForAggregate ''average price'' [''id'', ''price'', ''qty'']
             [''avg'', ''average'', ''mean''] = Inr (Some ''price'')"
    by auto
  from extractColumnForAggregate_names_column [OF b1 b2, of "''total of all''"] b3 b4
  have b: "extractColumnForAggregate ''total of all'' [''name'', ''paid'', ''price''] [''sum'', ''total'']
             = Inr (Some ''paid'')"
    by auto
  from extractColumnForAggregate_names_column [OF c1 c2, of "''the highest''"] c3 c4
  have c: "extractColumnForAggregate ''the highest'' [''name'', ''city'']
             [''max'', ''maximum'', ''highest'', ''largest''] = Inr (Some ''name'')"
    by auto
  from a a3 b b3 c c3 show ?thesis by (simp only: simp_thms)
qed

text \<open>
  C4 as stated fails on the empty list of columns, which the schema of a table that does
  not exist gives: the extractor returns \<open>undefined\<close>, and names no column.
\<close>

theorem extractColumnForAggregate_counterexample:
  "extractColumnForAggregate ''average price'' [] [''avg'', ''average'', ''mean''] = Inr None"
  by code_simp


section \<open>The loop over the rules\<close>

lemma tryPatterns_find:
  "tryPatterns rules lowerText s =
     (case find (\<lambda>q. test (pattern q) lowerText \<and> \<not> isl (ruleSql q s)) rules of
        None \<Rightarrow> None
      | Some q \<Rightarrow> Some \<lparr>sqlQuery = addLimit (projr (ruleSql q s)), error = None\<rparr>)"
  by (induction rules) (auto split: sum.splits)

lemma find_at:
  "i < length xs \<Longrightarrow> list_all (\<lambda>x. \<not> P x) (take i xs) \<Longrightarrow> P (xs ! i) \<Longrightarrow> find P xs = Some (xs ! i)"
proof (induction xs arbitrary: i)
  case Nil
  then show ?case by simp
next
  case (Cons x xs)
  then show ?case by (cases i) auto
qed

text \<open>
  C6.  In the loop over any list of rules: when the trigger of a rule matches the
  lower-cased phrase and its function raises, the loop goes on with the rules after it,
  as if the rule had not matched; and the rule that the loop uses is the first in the
  list whose trigger matches and whose SQL is produced without an exception.
\<close>

theorem tryPatterns_skips_rule_that_throws:
  "(test (pattern p) lowerText \<and> isl (ruleSql p text)
      \<longrightarrow> tryPatterns (p # ps) lowerText text = tryPatterns ps lowerText text)
   \<and> tryPatterns rules lowerText text =
       (case find (\<lambda>q. test (pattern q) lowerText \<and> \<not> isl (ruleSql q text)) rules of
          None \<Rightarrow> None
        | Some q \<Rightarrow> Some \<lparr>sqlQuery = addLimit (projr (ruleSql q text)), error = None\<rparr>)"
proof
  show "test (pattern p) lowerText \<and> isl (ruleSql p text)
      \<longrightarrow> tryPatterns (p # ps) lowerText text = tryPatterns ps lowerText text"
    by (auto split: sum.splits)
next
  show "tryPatterns rules lowerText text =
       (case find (\<lambda>q. test (pattern q) lowerText \<and> \<not> isl (ruleSql q text)) rules of
          None \<Rightarrow> None
        | Some q \<Rightarrow> Some \<lparr>sqlQuery = addLimit (projr (ruleSql q text)), error = None\<rparr>)"
    by (rule tryPatterns_find)
qed

text \<open>
  The witness: the function of the fifth rule of the source (``show ... where'') behind a
  trigger that lets ``show users'' through.  It raises, reading \<open>match[1]\<close> of \<open>null\<close>,
  and the loop returns the SQL of the rule after it.
\<close>

theorem tryPatterns_skips_rule_that_throws_witness:
  "test (str ''show'') ''show users''
   \<and> ruleSql \<lparr>pattern = str ''show'', sql = sql (patterns ''t'' [] Map.empty ! 4), description = []\<rparr>
        ''show users'' = Inl TypeError
   \<and> tryPatterns
        [\<lparr>pattern = str ''show'', sql = sql (patterns ''t'' [] Map.empty ! 4), description = []\<rparr>,
         \<lparr>pattern = str ''users'', sql = Text ''SELECT * FROM t'', description = []\<rparr>]
        ''show users'' ''show users''
       = Some \<lparr>sqlQuery = ''SELECT * FROM t LIMIT 100'', error = None\<rparr>"
proof -
  let ?p = "\<lparr>pattern = str ''show'', sql = sql (patterns ''t'' [] Map.empty ! 4), description = []\<rparr>"
  let ?q = "\<lparr>pattern = str ''users'', sql = Text ''SELECT * FROM t'', description = []\<rparr>"
  have t: "test (str ''show'') ''show users''"
    by code_simp
  have e: "ruleSql ?p ''show users'' = Inl TypeError"
    by code_simp
  have n: "tryPatterns [?q] ''show users'' ''show users''
             = Some \<lparr>sqlQuery = ''SELECT * FROM t LIMIT 100'', error = None\<rparr>"
    by code_simp
  from tryPatterns_skips_rule_that_throws [of ?p "''show users''" "''show users''" "[?q]" "[]"] t e
  have "tryPatterns [?p, ?q] ''show users'' ''show users''
          = tryPatterns [?q] ''show users'' ''show users''"
    by simp
  with t e n show ?thesis by simp
qed

lemma generateSQLFromText_at:
  assumes "i < length (patterns table columnNames columnTypes)"
    and "list_all (\<lambda>q. \<not> (test (pattern q) (trim (toLowerCase text)) \<and> \<not> isl (ruleSql q text)))
           (take i (patterns table columnNames columnTypes))"
    and "test (pattern (patterns table columnNames columnTypes ! i)) (trim (toLowerCase text))"
    and "ruleSql (patterns table columnNames columnTypes ! i) text = Inr s"
  shows "generateSQLFromText text table columnNames columnTypes
           = Inr \<lparr>sqlQuery = addLimit s, error = None\<rparr>"
proof -
  let ?P = "\<lambda>q. test (pattern q) (trim (toLowerCase text)) \<and> \<not> isl (ruleSql q text)"
  from assms(3,4) have "?P (patterns table columnNames columnTypes ! i)" by simp
  from find_at [of i _ ?P, OF assms(1) assms(2) this] assms(4)
  show ?thesis
    by (simp add: generateSQLFromText_def tryPatterns_find)
qed

text \<open>
  C2.  When rule \<open>i\<close> of the table is the first whose trigger matches the lower-cased,
  trimmed phrase and whose SQL is produced without an exception, and \<open>s\<close> is that SQL:
  the translation returns \<open>s\<close> with `` LIMIT 100'' appended if the lower-cased \<open>s\<close>
  contains none of ``limit'', ``count('', ``avg('', ``sum('', ``max('', ``min('', and
  \<open>s\<close> unchanged if it contains one of them.
\<close>

theorem generateSQLFromText_safety_limit:
  assumes "i < length (patterns table columnNames columnTypes)"
    and "list_all (\<lambda>q. \<not> (test (pattern q) (trim (toLowerCase text)) \<and> \<not> isl (ruleSql q text)))
           (take i (patterns table columnNames columnTypes))"
    and "test (pattern (patterns table columnNames columnTypes ! i)) (trim (toLowerCase text))"
    and "ruleSql (patterns table columnNames columnTypes ! i) text = Inr s"
  shows "generateSQLFromText text table columnNames columnTypes
           = Inr \<lparr>sqlQuery =
                    (if includesStr (toLowerCase s) ''limit'' \<or> includesStr (toLowerCase s) ''count(''
                        \<or> includesStr (toLowerCase s) ''avg('' \<or> includesStr (toLowerCase s) ''sum(''
                        \<or> includesStr (toLowerCase s) ''max('' \<or> includesStr (toLowerCase s) ''min(''
                     then s else s @ '' LIMIT 100''),
                  error = None\<rparr>"
  using generateSQLFromText_at [OF assms] by (simp add: addLimit_def)

theorem generateSQLFromText_safety_limit_witness:
  "generateSQLFromText ''Show me ALL'' ''users'' [''id''] Map.empty
     = Inr \<lparr>sqlQuery = ''SELECT * FROM users LIMIT 100'', error = None\<rparr>
   \<and> ruleSql (patterns ''users'' [''id''] Map.empty ! 2) ''Show me ALL'' = Inr ''SELECT * FROM users''
   \<and> generateSQLFromText ''how many'' ''users'' [''id''] Map.empty
     = Inr \<lparr>sqlQuery = ''SELECT COUNT(*) as count FROM users'', error = None\<rparr>"
proof -
  have a1: "2 < length (patterns ''users'' [''id''] Map.empty)"
    by (simp add: patterns_def)
  have a2: "list_all (\<lambda>q. \<not> (test (pattern q) (trim (toLowerCase ''Show me ALL''))
                              \<and> \<not> isl (ruleSql q ''Show me ALL'')))
              (take 2 (patterns ''users'' [''id''] Map.empty))"
    by code_simp
  have a3: "test (pattern (patterns ''users'' [''id''] Map.empty ! 2)) (trim (toLowerCase ''Show me ALL''))"
    by code_simp
  have a4: "ruleSql (patterns ''users'' [''id''] Map.empty ! 2) ''Show me ALL'' = Inr ''SELECT * FROM users''"
    by code_simp
  have l: "(if includesStr (toLowerCase ''SELECT * FROM users'') ''limit''
              \<or> includesStr (toLowerCase ''SELECT * FROM users'') ''count(''
              \<or> includesStr (toLowerCase ''SELECT * FROM users'') ''avg(''
              \<or> includesStr (toLowerCase ''SELECT * FROM users'') ''sum(''
              \<or> includesStr (toLowerCase ''SELECT * FROM users'') ''max(''
              \<or> includesStr (toLowerCase ''SELECT * FROM users'') ''min(''
            then ''SELECT * FROM users'' else ''SELECT * FROM users'' @ '' LIMIT 100'')
           = ''SELECT * FROM users LIMIT 100''"
    by code_simp
  have c1: "1 < length (patterns ''users'' [''id''] Map.empty)"
    by (simp add: patterns_def)
  have c2: "list_all (\<lambda>q. \<not> (test (pattern q) (trim (toLowerCase ''how many''))
                              \<and> \<not> isl (ruleSql q ''how many'')))
              (take 1 (patterns ''users'' [''id''] Map.empty))"
    by code_simp
  have c3: "test (pattern (patterns ''users'' [''id''] Map.empty ! 1)) (trim (toLowerCase ''how many''))"
    by code_simp
  have c4: "ruleSql (patterns ''users'' [''id''] Map.empty ! 1) ''how many''
              = Inr ''SELECT COUNT(*) as count FROM users''"
    by code_simp
  have m: "(if includesStr (toLowerCase ''SELECT COUNT(*) as count FROM users'') ''limit''
              \<or> includesStr (toLowerCase ''SELECT COUNT(*) as count FROM users'') ''count(''
              \<or> includesStr (toLowerCase ''SELECT COUNT(*) as count FROM users'') ''avg(''
              \<or> includesStr (toLowerCase ''SELECT COUNT(*) as count FROM users'') ''sum(''
              \<or> includesStr (toLowerCase ''SELECT COUNT(*) as count FROM users'') ''max(''
              \<or> includesStr (toLowerCase ''SELECT COUNT(*) as count FROM users'') ''min(''
            then ''SELECT COUNT(*) as count FROM users''
            else ''SELECT COUNT(*) as count FROM users'' @ '' LIMIT 100'')
           = ''SELECT COUNT(*) as count FROM users''"
    by code_simp
  from generateSQLFromText_safety_limit [OF a1 a2 a3 a4] l
       generateSQLFromText_safety_limit [OF c1 c2 c3 c4] m a4
  show ?thesis by (simp only: simp_thms)
qed


section \<open>Every translation is a SELECT from the table\<close>

lemma includesStr_iff: "includesStr s sub = (\<exists>a b. s = a @ sub @ b)"
proof (induction s)
  case Nil
  show ?case by auto
next
  case (Cons c cs)
  show ?case
  proof
    assume "includesStr (c # cs) sub"
    then consider "prefix sub (c # cs)" | "includesStr cs sub" by auto
    then show "\<exists>a b. c # cs = a @ sub @ b"
    proof cases
      case 1
      then obtain b where "c # cs = sub @ b" by (auto simp: prefix_def)
      then have "c # cs = [] @ sub @ b" by simp
      then show ?thesis by blast
    next
      case 2
      with Cons.IH obtain a b where "cs = a @ sub @ b" by blast
      then have "c # cs = (c # a) @ sub @ b" by simp
      then show ?thesis by blast
    qed
  next
    assume "\<exists>a b. c # cs = a @ sub @ b"
    then obtain a b where ab: "c # cs = a @ sub @ b" by blast
    show "includesStr (c # cs) sub"
    proof (cases a)
      case Nil
      with ab have "prefix sub (c # cs)" by (simp add: prefix_def)
      then show ?thesis by simp
    next
      case (Cons x xs)
      with ab have "cs = xs @ sub @ b" by simp
      with Cons.IH have "includesStr cs sub" by blast
      then show ?thesis by simp
    qed
  qed
qed

lemma includesStr_append2: "includesStr ys sub \<Longrightarrow> includesStr (xs @ ys) sub"
proof -
  assume "includesStr ys sub"
  then obtain a b where "ys = a @ sub @ b"
    unfolding includesStr_iff by blast
  then have "xs @ ys = (xs @ a) @ sub @ b" by simp
  then show ?thesis
    unfolding includesStr_iff by blast
qed

lemma prefix_self_append: "prefix xs (xs @ ys)"
  by (simp add: prefix_def)

lemma selectFrom_append: "selectFrom table s \<Longrightarrow> selectFrom table (s @ x)"
proof -
  assume a: "selectFrom table s"
  then obtain u v where "s = u @ ('' FROM '' @ table) @ v"
    unfolding selectFrom_def includesStr_iff by blast
  then have "s @ x = u @ ('' FROM '' @ table) @ (v @ x)" by simp
  then have "includesStr (s @ x) ('' FROM '' @ table)"
    unfolding includesStr_iff by blast
  moreover from a have "prefix ''SELECT '' (s @ x)"
    unfolding selectFrom_def by (simp add: prefix_prefix)
  ultimately show ?thesis by (simp add: selectFrom_def)
qed

lemma selectFrom_addLimit: "selectFrom table s \<Longrightarrow> selectFrom table (addLimit s)"
  by (simp add: addLimit_def selectFrom_append)

lemmas selectFrom_simps = selectFrom_def includesStr_append2 prefix_self_append

lemma patterns_selectFrom:
  "list_all (\<lambda>p. \<forall>s. ruleSql p text = Inr s \<longrightarrow> selectFrom table s)
     (patterns table columnNames columnTypes)"
  unfolding patterns_def list.pred_inject ruleSql_def rule.simps sqlSource.case
  by (intro conjI allI impI TrueI)
     (auto split: sum.splits option.splits simp: Let_def selectFrom_simps)

lemma tryPatterns_selectFrom:
  "list_all (\<lambda>p. \<forall>s. ruleSql p text = Inr s \<longrightarrow> selectFrom table s) rules \<Longrightarrow>
   tryPatterns rules lowerText text = Some r \<Longrightarrow> selectFrom table (sqlQuery r)"
  by (induction rules) (auto split: if_splits sum.splits simp: selectFrom_addLimit)

lemma generateSQLFromText_selectFrom:
  "\<exists>r. generateSQLFromText text table columnNames columnTypes = Inr r
       \<and> selectFrom table (sqlQuery r)"
proof (cases "tryPatterns (patterns table columnNames columnTypes) (trim (toLowerCase text)) text")
  case (Some r)
  from tryPatterns_selectFrom [OF patterns_selectFrom Some] Some show ?thesis
    by (simp add: generateSQLFromText_def)
next
  case None
  then show ?thesis
    by (auto simp: generateSQLFromText_def selectFrom_simps split: sum.splits)
qed

text \<open>
  C5.  For every phrase, table name and list of column names the translation returns
  normally, with a translation whose SQL is a text that is not empty: no exception leaves
  the call.
\<close>

theorem generateSQLFromText_total:
  "\<exists>r. generateSQLFromText text table columnNames columnTypes = Inr r \<and> sqlQuery r \<noteq> []"
proof -
  from generateSQLFromText_selectFrom [of "text" table columnNames columnTypes]
  obtain r where "generateSQLFromText text table columnNames columnTypes = Inr r"
    and "prefix ''SELECT '' (sqlQuery r)"
    by (auto simp: selectFrom_def)
  then show ?thesis by (auto simp: prefix_def)
qed

section \<open>What a group can hold\<close>

lemma greedyStar_invariant:
  "s' \<in> set (greedyStar m s) \<Longrightarrow> I s \<Longrightarrow>
   (\<And>t t'. t' \<in> set (m t) \<Longrightarrow> I t \<Longrightarrow> I t') \<Longrightarrow> I s'"
proof (induction m s rule: greedyStar.induct)
  case (1 m s)
  from "1.prems"(1) have "s' = s \<or> (\<exists>x \<in> set (filter (advanced s) (m s)). s' \<in> set (greedyStar m x))"
    by (subst (asm) greedyStar.simps) auto
  then show ?case
  proof
    assume "s' = s"
    with "1.prems"(2) show ?thesis by simp
  next
    assume "\<exists>x \<in> set (filter (advanced s) (m s)). s' \<in> set (greedyStar m x)"
    then obtain x where x: "x \<in> set (filter (advanced s) (m s))" "s' \<in> set (greedyStar m x)"
      by blast
    from x(1) have "x \<in> set (m s)" by simp
    with "1.prems"(2) "1.prems"(3) have "I x" by blast
    with "1.IH" [OF x(1) x(2)] "1.prems"(3) show ?thesis by blast
  qed
qed

lemma lazyStar_invariant:
  "s' \<in> set (lazyStar m s) \<Longrightarrow> I s \<Longrightarrow>
   (\<And>t t'. t' \<in> set (m t) \<Longrightarrow> I t \<Longrightarrow> I t') \<Longrightarrow> I s'"
proof (induction m s rule: lazyStar.induct)
  case (1 m s)
  from "1.prems"(1) have "s' = s \<or> (\<exists>x \<in> set (filter (advanced s) (m s)). s' \<in> set (lazyStar m x))"
    by (subst (asm) lazyStar.simps) auto
  then show ?case
  proof
    assume "s' = s"
    with "1.prems"(2) show ?thesis by simp
  next
    assume "\<exists>x \<in> set (filter (advanced s) (m s)). s' \<in> set (lazyStar m x)"
    then obtain x where x: "x \<in> set (filter (advanced s) (m s))" "s' \<in> set (lazyStar m x)"
      by blast
    from x(1) have "x \<in> set (m s)" by simp
    with "1.prems"(2) "1.prems"(3) have "I x" by blast
    with "1.IH" [OF x(1) x(2)] "1.prems"(3) show ?thesis by blast
  qed
qed

lemma consume_char: "s' \<in> set (consume P s) \<Longrightarrow> \<exists>c. rest s = c # rest s' \<and> P c"
  by (cases "rest s") (auto simp: consume_def split: if_splits)

lemma consume_avoids:
  assumes "s' \<in> set (consume P s)" and "\<And>c. P c \<Longrightarrow> c \<notin> set bad"
  shows "\<exists>u. rest s = u @ rest s' \<and> set u \<inter> set bad = {}"
proof -
  from consume_char [OF assms(1)] obtain c where c: "rest s = c # rest s'" "P c" by blast
  from assms(2) [OF c(2)] have "set [c] \<inter> set bad = {}" by simp
  moreover from c(1) have "rest s = [c] @ rest s'" by simp
  ultimately show ?thesis by blast
qed

lemma consumesNone_run:
  "s' \<in> set (run re s) \<Longrightarrow> consumesNone bad re \<Longrightarrow>
   \<exists>u. rest s = u @ rest s' \<and> set u \<inter> set bad = {}"
proof (induction re arbitrary: s s')
  case Eps
  then show ?case by simp
next
  case (Lit a)
  from Lit.prems(1) have "s' \<in> set (consume (\<lambda>c. toUpperChar a = toUpperChar c) s)" by simp
  then show ?case
    by (rule consume_avoids) (use Lit.prems(2) in \<open>auto simp: list_all_iff\<close>)
next
  case Dot
  from Dot.prems(1) have "s' \<in> set (consume (\<lambda>c. \<not> isLineTerminator c) s)" by simp
  then show ?case
    by (rule consume_avoids) (use Dot.prems(2) in \<open>auto simp: list_all_iff\<close>)
next
  case (OneOf cs)
  from OneOf.prems(1) have "s' \<in> set (consume (\<lambda>c. list_ex (\<lambda>k. clsMatches k c) cs) s)" by simp
  then show ?case
    by (rule consume_avoids) (use OneOf.prems(2) in \<open>auto simp: list_all_iff\<close>)
next
  case (NoneOf cs)
  from NoneOf.prems(1) have "s' \<in> set (consume (\<lambda>c. \<not> list_ex (\<lambda>k. clsMatches k c) cs) s)" by simp
  then show ?case
    by (rule consume_avoids) (use NoneOf.prems(2) in \<open>auto simp: list_all_iff\<close>)
next
  case WordB
  then show ?case by (auto split: if_splits)
next
  case (Seq r1 r2)
  from Seq.prems(1) obtain x where x: "x \<in> set (run r1 s)" "s' \<in> set (run r2 x)"
    by auto
  from Seq.IH(1) [OF x(1)] Seq.prems(2) obtain u where u: "rest s = u @ rest x" "set u \<inter> set bad = {}"
    by auto
  from Seq.IH(2) [OF x(2)] Seq.prems(2) obtain v where v: "rest x = v @ rest s'" "set v \<inter> set bad = {}"
    by auto
  from u v have "rest s = (u @ v) @ rest s'" "set (u @ v) \<inter> set bad = {}" by auto
  then show ?case by blast
next
  case (Alt r1 r2)
  from Alt.prems(2) have g: "consumesNone bad r1" "consumesNone bad r2" by simp_all
  from Alt.prems(1) have "s' \<in> set (run r1 s) \<or> s' \<in> set (run r2 s)" by simp
  then show ?case
  proof
    assume "s' \<in> set (run r1 s)"
    from Alt.IH(1) [OF this g(1)] show ?thesis .
  next
    assume "s' \<in> set (run r2 s)"
    from Alt.IH(2) [OF this g(2)] show ?thesis .
  qed
next
  case (Star r)
  let ?I = "\<lambda>t. \<exists>u. rest s = u @ rest t \<and> set u \<inter> set bad = {}"
  from Star.prems(1) have g: "s' \<in> set (greedyStar (run r) s)" by simp
  have i: "?I s" by simp
  have step: "\<And>t t'. t' \<in> set (run r t) \<Longrightarrow> ?I t \<Longrightarrow> ?I t'"
  proof -
    fix t t' assume t: "t' \<in> set (run r t)" and "?I t"
    then obtain u where u: "rest s = u @ rest t" "set u \<inter> set bad = {}" by blast
    from Star.IH [OF t] Star.prems(2) obtain v where v: "rest t = v @ rest t'" "set v \<inter> set bad = {}"
      by auto
    from u v have "rest s = (u @ v) @ rest t'" "set (u @ v) \<inter> set bad = {}" by auto
    then show "?I t'" by blast
  qed
  from greedyStar_invariant [of s' "run r" s ?I, OF g i step] show ?case .
next
  case (LazyStar r)
  let ?I = "\<lambda>t. \<exists>u. rest s = u @ rest t \<and> set u \<inter> set bad = {}"
  from LazyStar.prems(1) have g: "s' \<in> set (lazyStar (run r) s)" by simp
  have i: "?I s" by simp
  have step: "\<And>t t'. t' \<in> set (run r t) \<Longrightarrow> ?I t \<Longrightarrow> ?I t'"
  proof -
    fix t t' assume t: "t' \<in> set (run r t)" and "?I t"
    then obtain u where u: "rest s = u @ rest t" "set u \<inter> set bad = {}" by blast
    from LazyStar.IH [OF t] LazyStar.prems(2) obtain v where v: "rest t = v @ rest t'" "set v \<inter> set bad = {}"
      by auto
    from u v have "rest s = (u @ v) @ rest t'" "set (u @ v) \<inter> set bad = {}" by auto
    then show "?I t'" by blast
  qed
  from lazyStar_invariant [of s' "run r" s ?I, OF g i step] show ?case .
next
  case (Plus r)
  let ?I = "\<lambda>t. \<exists>u. rest s = u @ rest t \<and> set u \<inter> set bad = {}"
  from Plus.prems(1) obtain x where x: "x \<in> set (run r s)" "s' \<in> set (greedyStar (run r) x)"
    by auto
  from Plus.IH [OF x(1)] Plus.prems(2) have i: "?I x" by simp
  have step: "\<And>t t'. t' \<in> set (run r t) \<Longrightarrow> ?I t \<Longrightarrow> ?I t'"
  proof -
    fix t t' assume t: "t' \<in> set (run r t)" and "?I t"
    then obtain u where u: "rest s = u @ rest t" "set u \<inter> set bad = {}" by blast
    from Plus.IH [OF t] Plus.prems(2) obtain v where v: "rest t = v @ rest t'" "set v \<inter> set bad = {}"
      by auto
    from u v have "rest s = (u @ v) @ rest t'" "set (u @ v) \<inter> set bad = {}" by auto
    then show "?I t'" by blast
  qed
  from greedyStar_invariant [of s' "run r" x ?I, OF x(2) i step] show ?case .
next
  case (Opt r)
  from Opt.prems(2) have a: "consumesNone bad r" by simp
  from Opt.prems(1) have "s' = s \<or> s' \<in> set (run r s)" by auto
  then show ?case
  proof
    assume "s' = s"
    then show ?thesis by simp
  next
    assume "s' \<in> set (run r s)"
    from Opt.IH [OF this a] show ?thesis .
  qed
next
  case (Group k r)
  from Group.prems(1) obtain x where x: "x \<in> set (run r s)" "s' = capture k s x"
    by auto
  from Group.IH [OF x(1)] Group.prems(2) x(2) show ?case by (simp add: capture_def)
qed

lemma run_groupAvoids:
  "s' \<in> set (run re s) \<Longrightarrow> groupAvoids bad n re \<Longrightarrow>
   (\<forall>v. caps s n = Some v \<longrightarrow> set v \<inter> set bad = {}) \<Longrightarrow>
   (\<forall>v. caps s' n = Some v \<longrightarrow> set v \<inter> set bad = {})"
proof (induction re arbitrary: s s')
  case Eps
  then show ?case by simp
next
  case (Lit a)
  from Lit.prems(1) have "caps s' = caps s" by (simp add: consume_caps)
  with Lit.prems(3) show ?case by simp
next
  case Dot
  from Dot.prems(1) have "caps s' = caps s" by (simp add: consume_caps)
  with Dot.prems(3) show ?case by simp
next
  case (OneOf cs)
  from OneOf.prems(1) have "caps s' = caps s" by (simp add: consume_caps)
  with OneOf.prems(3) show ?case by simp
next
  case (NoneOf cs)
  from NoneOf.prems(1) have "caps s' = caps s" by (simp add: consume_caps)
  with NoneOf.prems(3) show ?case by simp
next
  case WordB
  from WordB.prems(1) have "s' = s" by (simp split: if_splits)
  with WordB.prems(3) show ?case by simp
next
  case (Seq r1 r2)
  from Seq.prems(1) obtain x where x: "x \<in> set (run r1 s)" "s' \<in> set (run r2 x)"
    by auto
  from Seq.prems(2) have g: "groupAvoids bad n r1" "groupAvoids bad n r2" by simp_all
  from Seq.IH(1) [OF x(1) g(1) Seq.prems(3)]
  have "\<forall>v. caps x n = Some v \<longrightarrow> set v \<inter> set bad = {}" .
  from Seq.IH(2) [OF x(2) g(2) this] show ?case .
next
  case (Alt r1 r2)
  from Alt.prems(2) have g: "groupAvoids bad n r1" "groupAvoids bad n r2" by simp_all
  from Alt.prems(1) have "s' \<in> set (run r1 s) \<or> s' \<in> set (run r2 s)" by simp
  then show ?case
  proof
    assume "s' \<in> set (run r1 s)"
    from Alt.IH(1) [OF this g(1) Alt.prems(3)] show ?thesis .
  next
    assume "s' \<in> set (run r2 s)"
    from Alt.IH(2) [OF this g(2) Alt.prems(3)] show ?thesis .
  qed
next
  case (Star r)
  let ?I = "\<lambda>t. \<forall>v. caps t n = Some v \<longrightarrow> set v \<inter> set bad = {}"
  from Star.prems(1) have g: "s' \<in> set (greedyStar (run r) s)" by simp
  from Star.prems(2) have a: "groupAvoids bad n r" by simp
  have step: "\<And>t t'. t' \<in> set (run r t) \<Longrightarrow> ?I t \<Longrightarrow> ?I t'"
    by (rule Star.IH [OF _ a])
  from greedyStar_invariant [of s' "run r" s ?I, OF g Star.prems(3) step] show ?case .
next
  case (LazyStar r)
  let ?I = "\<lambda>t. \<forall>v. caps t n = Some v \<longrightarrow> set v \<inter> set bad = {}"
  from LazyStar.prems(1) have g: "s' \<in> set (lazyStar (run r) s)" by simp
  from LazyStar.prems(2) have a: "groupAvoids bad n r" by simp
  have step: "\<And>t t'. t' \<in> set (run r t) \<Longrightarrow> ?I t \<Longrightarrow> ?I t'"
    by (rule LazyStar.IH [OF _ a])
  from lazyStar_invariant [of s' "run r" s ?I, OF g LazyStar.prems(3) step] show ?case .
next
  case (Plus r)
  let ?I = "\<lambda>t. \<forall>v. caps t n = Some v \<longrightarrow> set v \<inter> set bad = {}"
  from Plus.prems(1) obtain x where x: "x \<in> set (run r s)" "s' \<in> set (greedyStar (run r) x)"
    by auto
  from Plus.prems(2) have a: "groupAvoids bad n r" by simp
  from Plus.IH [OF x(1) a Plus.prems(3)] have i: "?I x" .
  have step: "\<And>t t'. t' \<in> set (run r t) \<Longrightarrow> ?I t \<Longrightarrow> ?I t'"
    by (rule Plus.IH [OF _ a])
  from greedyStar_invariant [of s' "run r" x ?I, OF x(2) i step] show ?case .
next
  case (Opt r)
  from Opt.prems(2) have a: "groupAvoids bad n r" by simp
  from Opt.prems(1) have "s' = s \<or> s' \<in> set (run r s)" by auto
  then show ?case
  proof
    assume "s' = s"
    with Opt.prems(3) show ?thesis by simp
  next
    assume "s' \<in> set (run r s)"
    from Opt.IH [OF this a Opt.prems(3)] show ?thesis .
  qed
next
  case (Group k r)
  from Group.prems(1) obtain x where x: "x \<in> set (run r s)" "s' = capture k s x"
    by auto
  from Group.prems(2) have a: "groupAvoids bad n r" by simp
  show ?case
  proof (cases "k = n")
    case True
    with Group.prems(2) have "consumesNone bad r" by simp
    from consumesNone_run [OF x(1) this] obtain u where u: "rest s = u @ rest x" "set u \<inter> set bad = {}"
      by blast
    from u(1) have "take (length (rest s) - length (rest x)) (rest s) = u" by simp
    with True x(2) u(2) show ?thesis by (simp add: capture_def)
  next
    case False
    from Group.IH [OF x(1) a Group.prems(3)]
    have "\<forall>v. caps x n = Some v \<longrightarrow> set v \<inter> set bad = {}" .
    with False x(2) show ?thesis by (simp add: capture_def)
  qed
qed

lemma execFrom_avoids:
  "execFrom re p s = Some m \<Longrightarrow> groupAvoids bad n re \<Longrightarrow> n \<noteq> 0 \<Longrightarrow> m n = Some v \<Longrightarrow>
   set v \<inter> set bad = {}"
proof (induction re p s rule: execFrom.induct)
  case (1 re p s)
  show ?case
  proof (cases "run re \<lparr>prev = p, rest = s, caps = Map.empty\<rparr>")
    case Nil
    with "1.prems"(1) obtain c cs where s: "s = c # cs" and e: "execFrom re (Some c) cs = Some m"
      by (subst (asm) execFrom.simps) (auto split: list.splits)
    from "1.IH" [OF Nil s e "1.prems"(2,3,4)] show ?thesis .
  next
    case (Cons x xs)
    with "1.prems"(1) have m: "m = (caps x)(0 \<mapsto> take (length s - length (rest x)) s)"
      by (subst (asm) execFrom.simps) auto
    from Cons have "x \<in> set (run re \<lparr>prev = p, rest = s, caps = Map.empty\<rparr>)" by simp
    from run_groupAvoids [OF this "1.prems"(2)]
    have "\<forall>v. caps x n = Some v \<longrightarrow> set v \<inter> set bad = {}" by simp
    with m "1.prems"(3,4) show ?thesis by simp
  qed
qed

lemma regexMatch_avoids:
  "regexMatch re s = Some m \<Longrightarrow> groupAvoids bad n re \<Longrightarrow> n \<noteq> 0 \<Longrightarrow> m n = Some v \<Longrightarrow>
   set v \<inter> set bad = {}"
  unfolding regexMatch_def by (rule execFrom_avoids)

section \<open>The translation is one statement\<close>

lemma bareSemicolon_append:
  "bareSemicolon q (a @ b) = (bareSemicolon q a \<or> bareSemicolon (endsInQuote q a) b)"
  by (induction a arbitrary: q) auto

lemma endsInQuote_append: "endsInQuote q (a @ b) = endsInQuote (endsInQuote q a) b"
  by (induction a arbitrary: q) auto

lemma plainText_scan: "plainText s \<Longrightarrow> \<not> bareSemicolon q s \<and> endsInQuote q s = q"
  by (induction s) (auto simp: plainText_def)

lemma noquote_scan: "CHR 0x27 \<notin> set s \<Longrightarrow> \<not> bareSemicolon True s \<and> endsInQuote True s"
  by (induction s) auto

lemma closedSql_Nil: "closedSql []"
  by (simp add: closedSql_def)

lemma closesQuote_Nil: "\<not> closesQuote []"
  by (simp add: closesQuote_def)

lemma closedSql_Cons:
  "closedSql (c # s) = (if c = CHR 0x27 then closesQuote s else c \<noteq> CHR '';'' \<and> closedSql s)"
  by (simp add: closedSql_def closesQuote_def)

lemma closesQuote_Cons:
  "closesQuote (c # s) = (if c = CHR 0x27 then closedSql s else closesQuote s)"
  by (simp add: closedSql_def closesQuote_def)

lemma closedSql_plain: "plainText s \<Longrightarrow> closedSql s"
  using plainText_scan [of s False] by (simp add: closedSql_def)

lemma closedSql_append_closed: "closedSql a \<Longrightarrow> closedSql (a @ b) = closedSql b"
  by (simp add: closedSql_def bareSemicolon_append endsInQuote_append)

lemma closesQuote_append_noquote: "CHR 0x27 \<notin> set v \<Longrightarrow> closesQuote (v @ b) = closesQuote b"
  using noquote_scan [of v] by (simp add: closesQuote_def bareSemicolon_append endsInQuote_append)

lemma closedSql_append: "closedSql a \<Longrightarrow> closedSql b \<Longrightarrow> closedSql (a @ b)"
  by (simp add: closedSql_append_closed)

lemma plainText_append: "plainText (a @ b) = (plainText a \<and> plainText b)"
  by (auto simp: plainText_def)

lemma plainText_join:
  "plainText sep \<Longrightarrow> list_all plainText xs \<Longrightarrow> plainText (join sep xs)"
  by (induction sep xs rule: join.induct) (auto simp: plainText_append, simp add: plainText_def)

lemma closedSql_join:
  "closedSql sep \<Longrightarrow> list_all closedSql xs \<Longrightarrow> closedSql (join sep xs)"
  by (induction sep xs rule: join.induct) (auto simp: closedSql_Nil closedSql_append)

lemma isWordChar_plain: "isWordChar c \<Longrightarrow> c \<noteq> CHR 0x27 \<and> c \<noteq> CHR '';''"
  by (auto simp: isWordChar_Char)

lemma wordChars_plainText: "list_all isWordChar s \<Longrightarrow> plainText s"
  by (auto simp: plainText_def list_all_iff dest: isWordChar_plain)

lemma toUpperChar_plain:
  "(toUpperChar c = CHR 0x27) = (c = CHR 0x27)" "(toUpperChar c = CHR '';'') = (c = CHR '';'')"
  by (cases c; simp add: toUpperChar_Char split: if_splits; blast)+

lemma notin_map: "(\<And>x. x \<in> set s \<Longrightarrow> f x \<noteq> a) \<Longrightarrow> a \<notin> set (map f s)"
  by auto

lemma toUpperCase_plain:
  assumes "plainText s"
  shows "plainText (toUpperCase s)"
  unfolding plainText_def toUpperCase_def
proof (intro conjI notin_map)
  fix x assume "x \<in> set s"
  with assms have "x \<noteq> CHR 0x27" by (auto simp: plainText_def)
  then show "toUpperChar x \<noteq> CHR 0x27" by (simp add: toUpperChar_plain)
next
  fix x assume "x \<in> set s"
  with assms have "x \<noteq> CHR '';''" by (auto simp: plainText_def)
  then show "toUpperChar x \<noteq> CHR '';''" by (simp add: toUpperChar_plain)
qed

lemma jsStr_plain: "(\<And>v. x = Some v \<Longrightarrow> plainText v) \<Longrightarrow> plainText (jsStr x)"
  by (cases x) (simp_all add: jsStr_def plainText_def)

lemma jsStr_noquote: "(\<And>v. x = Some v \<Longrightarrow> CHR 0x27 \<notin> set v) \<Longrightarrow> CHR 0x27 \<notin> set (jsStr x)"
  by (cases x) (simp_all add: jsStr_def)

text \<open>What the groups of a match hold, as the handlers print it.\<close>

lemma match_noquote:
  assumes "regexMatch re s = Some m" and "n \<noteq> 0" and "groupAvoids [CHR 0x27] n re"
  shows "CHR 0x27 \<notin> set (jsStr (m n))"
proof (rule jsStr_noquote)
  fix v assume "m n = Some v"
  from regexMatch_avoids [OF assms(1) assms(3) assms(2) this] show "CHR 0x27 \<notin> set v" by simp
qed

lemma match_plain:
  assumes "regexMatch re s = Some m" and "n \<noteq> 0" and "groupAvoids [CHR 0x27, CHR '';''] n re"
  shows "plainText (jsStr (m n))"
proof (rule jsStr_plain)
  fix v assume "m n = Some v"
  from regexMatch_avoids [OF assms(1) assms(3) assms(2) this] show "plainText v"
    by (simp add: plainText_def)
qed

lemma resolveCapture_plain:
  "resolveCapture w columnNames = Inr (Some c) \<Longrightarrow> list_all plainText columnNames \<Longrightarrow> plainText c"
  by (cases w) (auto simp: resolveCapture_def list_all_iff dest: findBestColumnMatch_member)

lemma findBestColumnMatch_plain:
  "findBestColumnMatch w columnNames = Some c \<Longrightarrow> list_all plainText columnNames \<Longrightarrow> plainText c"
  by (auto simp: list_all_iff dest: findBestColumnMatch_member)

lemma ifColumn_closed:
  "ifColumn column f = Some c \<Longrightarrow> (\<And>col. column = Some col \<Longrightarrow> closedSql (f col)) \<Longrightarrow> closedSql c"
  by (cases column) (auto simp: ifColumn_def split: if_splits)

lemmas closedSql_simps =
  closedSql_Nil closesQuote_Nil closedSql_Cons closesQuote_Cons closedSql_append_closed
  closesQuote_append_noquote closedSql_plain

lemmas regex_eval =
  str_def toUpperChar_Char isWordChar_Char isDigit_Char isWhiteSpace_Char isLineTerminator_Char

lemma conditionPatterns_closed:
  assumes cols: "list_all plainText columnNames"
  shows "list_all (\<lambda>(re, handler).
                     regexMatch re text = Some m \<longrightarrow> (\<forall>c. handler m = Inr (Some c) \<longrightarrow> closedSql c))
           (conditionPatterns columnNames)"
  unfolding conditionPatterns_def list.pred_inject prod.case
proof (intro conjI impI allI TrueI)
  fix c
  assume p: "regexMatch (seqs [Group 1 word1, ws1,
              alts [str ''greater than'', str ''more than'', str ''above'', str ''over''],
              ws1, Group 2 (Plus (OneOf [CDigit, CChar (CHR ''.'')]))]) text = Some m"
  from match_plain [OF p, of 2] have "plainText (jsStr (m 2))"
    by (simp add: regex_eval)
  moreover assume "(case resolveCapture (m 1) columnNames of
            Inl e \<Rightarrow> Inl e
          | Inr column \<Rightarrow> Inr (ifColumn column (\<lambda>c. c @ '' > '' @ jsStr (m 2)))) = Inr (Some c)"
  ultimately show "closedSql c"
    by (auto simp: closedSql_simps split: sum.splits
             elim!: ifColumn_closed dest!: resolveCapture_plain [OF _ cols])
next
  fix c
  assume p: "regexMatch (seqs [Group 1 word1, ws1,
              alts [str ''less than'', str ''fewer than'', str ''below'', str ''under''],
              ws1, Group 2 (Plus (OneOf [CDigit, CChar (CHR ''.'')]))]) text = Some m"
  from match_plain [OF p, of 2] have "plainText (jsStr (m 2))"
    by (simp add: regex_eval)
  moreover assume "(case resolveCapture (m 1) columnNames of
            Inl e \<Rightarrow> Inl e
          | Inr column \<Rightarrow> Inr (ifColumn column (\<lambda>c. c @ '' < '' @ jsStr (m 2)))) = Inr (Some c)"
  ultimately show "closedSql c"
    by (auto simp: closedSql_simps split: sum.splits
             elim!: ifColumn_closed dest!: resolveCapture_plain [OF _ cols])
next
  fix c
  assume p: "regexMatch (seqs [Group 1 word1, ws1,
              alts [str ''equal to'', str ''exactly'', str ''is''],
              ws1, Group 2 (Plus (OneOf [CWord, CChar (CHR ''.'')]))]) text = Some m"
  from match_plain [OF p, of 2] have v: "plainText (jsStr (m 2))"
    by (simp add: regex_eval)
  then have "CHR 0x27 \<notin> set (jsStr (m 2))" by (simp add: plainText_def)
  moreover assume "(case resolveCapture (m 1) columnNames of
            Inl e \<Rightarrow> Inl e
          | Inr column \<Rightarrow>
              (let v = (if isNaN (m 2) then [CHR 0x27] @ jsStr (m 2) @ [CHR 0x27]
                        else jsStr (m 2))
               in Inr (ifColumn column (\<lambda>c. c @ '' = '' @ v)))) = Inr (Some c)"
  ultimately show "closedSql c"
    using v
    by (auto simp: closedSql_simps Let_def split: sum.splits if_splits
             elim!: ifColumn_closed dest!: resolveCapture_plain [OF _ cols])
next
  fix c
  assume p: "regexMatch (seqs [Group 1 word1, ws1,
              alts [str ''containing'', str ''contain'', str ''like'', str ''with''],
              ws1, Opt quote, Group 2 unquoted1, Opt quote]) text = Some m"
  from match_noquote [OF p, of 2] have "CHR 0x27 \<notin> set (jsStr (m 2))"
    by (simp add: regex_eval)
  moreover assume "(case resolveCapture (m 1) columnNames of
            Inl e \<Rightarrow> Inl e
          | Inr column \<Rightarrow>
              Inr (ifColumn column
                     (\<lambda>c. c @ '' LIKE '' @ [CHR 0x27] @ ''%'' @ jsStr (m 2) @ ''%'' @ [CHR 0x27])))
        = Inr (Some c)"
  ultimately show "closedSql c"
    by (auto simp: closedSql_simps split: sum.splits
             elim!: ifColumn_closed dest!: resolveCapture_plain [OF _ cols])
next
  fix c
  assume p: "regexMatch (seqs [Group 1 word1, ws1,
              Group 2 (seqs [OneOf [CChar (CHR ''>''), CChar (CHR ''<''), CChar (CHR ''='')],
                             Opt (Lit (CHR ''=''))]),
              ws1, Group 3 (Plus (OneOf [CWord, CChar (CHR ''.'')]))]) text = Some m"
  from match_plain [OF p, of 2] have v2: "plainText (jsStr (m 2))"
    by (simp add: regex_eval)
  from match_plain [OF p, of 3] have v3: "plainText (jsStr (m 3))"
    by (simp add: regex_eval)
  then have "CHR 0x27 \<notin> set (jsStr (m 3))" by (simp add: plainText_def)
  moreover assume "(case resolveCapture (m 1) columnNames of
            Inl e \<Rightarrow> Inl e
          | Inr column \<Rightarrow>
              (let v = (if isNaN (m 3) \<and>
                           m 2 \<notin> set [Some ''>'', Some ''<'', Some ''>='', Some ''<='']
                        then [CHR 0x27] @ jsStr (m 3) @ [CHR 0x27]
                        else jsStr (m 3))
               in Inr (ifColumn column (\<lambda>c. c @ '' '' @ jsStr (m 2) @ '' '' @ v)))) = Inr (Some c)"
  ultimately show "closedSql c"
    using v2 v3
    by (auto simp: closedSql_simps Let_def split: sum.splits if_splits
             elim!: ifColumn_closed dest!: resolveCapture_plain [OF _ cols])
next
  fix c
  assume p: "regexMatch (seqs [alts [str ''named'', str ''called'', str ''name is'', str ''is''],
              ws1, Opt quote, Group 1 unquoted1, Opt quote]) text = Some m"
  from match_noquote [OF p, of 1] have "CHR 0x27 \<notin> set (jsStr (m 1))"
    by (simp add: regex_eval)
  moreover assume "(let n = findBestColumnMatch ''name'' columnNames;
               column = (if truthy n then n else findBestColumnMatch ''title'' columnNames)
           in Inr (ifColumn column
                     (\<lambda>c. c @ '' = '' @ [CHR 0x27] @ jsStr (m 1) @ [CHR 0x27]))) = Inr (Some c)"
  ultimately show "closedSql c"
    by (auto simp: closedSql_simps Let_def split: if_splits
             elim!: ifColumn_closed dest!: findBestColumnMatch_plain [OF _ cols])
qed simp

lemma collectConditions_closed:
  assumes "\<And>re handler m c. (re, handler) \<in> set ps \<Longrightarrow> regexMatch re text = Some m \<Longrightarrow>
             handler m = Inr (Some c) \<Longrightarrow> closedSql c"
  shows "collectConditions ps text acc = Inr cs \<Longrightarrow> list_all closedSql acc \<Longrightarrow> list_all closedSql cs"
  using assms
proof (induction ps arbitrary: acc)
  case Nil
  then show ?case by simp
next
  case (Cons p ps)
  obtain re handler where p: "p = (re, handler)" by (cases p)
  have tail: "\<And>a. collectConditions ps text a = Inr cs \<Longrightarrow> list_all closedSql a \<Longrightarrow> list_all closedSql cs"
    by (rule Cons.IH) (auto intro: Cons.prems(3))
  show ?case
  proof (cases "regexMatch re text")
    case None
    with p Cons.prems(1,2) tail [of acc] show ?thesis by simp
  next
    case (Some m)
    show ?thesis
    proof (cases "handler m")
      case (Inl e)
      with p Some Cons.prems(1) show ?thesis by simp
    next
      case (Inr condition)
      show ?thesis
      proof (cases "truthy condition")
        case False
        with p Some Inr Cons.prems(1,2) tail [of acc] show ?thesis by simp
      next
        case True
        then obtain k where k: "condition = Some k"
          by (auto simp: truthy_def split: option.splits)
        from Cons.prems(3) [of re handler m k] p Some Inr k have "closedSql k" by simp
        with Cons.prems(2) have "list_all closedSql (acc @ [k])" by simp
        moreover from p Some Inr True k Cons.prems(1)
        have "collectConditions ps text (acc @ [k]) = Inr cs" by simp
        ultimately show ?thesis by (rule tail [rotated])
      qed
    qed
  qed
qed

lemma extractWhereConditions_closed:
  assumes "list_all plainText columnNames"
    and "extractWhereConditions text columnNames columnTypes = Inr (Some c)"
  shows "closedSql c"
proof -
  from assms(2) obtain cs where cs: "collectConditions (conditionPatterns columnNames) text [] = Inr cs"
    and c: "c = join '' AND '' cs"
    by (auto simp: extractWhereConditions_def split: sum.splits if_splits)
  have "list_all closedSql cs"
  proof (rule collectConditions_closed [OF _ cs])
    fix re handler m k
    assume "(re, handler) \<in> set (conditionPatterns columnNames)"
      and "regexMatch re text = Some m" and "handler m = Inr (Some k)"
    with conditionPatterns_closed [OF assms(1), of "text" m] show "closedSql k"
      by (auto simp: list_all_iff)
  qed simp
  moreover have "closedSql '' AND ''" by (simp add: closedSql_simps)
  ultimately show ?thesis unfolding c by (rule closedSql_join [rotated])
qed

lemma extractColumns_plain:
  assumes "list_all plainText columnNames"
  shows "plainText (extractColumns x columnNames)"
proof (cases "truthy x")
  case False
  then show ?thesis by (simp add: extractColumns_def plainText_def)
next
  case True
  let ?requested = "map trim (split (seqs [Star (OneOf [CSpace]), Lit (CHR '',''), Star (OneOf [CSpace])])
                                    (the x))"
  let ?valid = "map the (filter truthy (map (\<lambda>col. findBestColumnMatch col columnNames) ?requested))"
  have "list_all plainText (map the (filter truthy (map (\<lambda>col. findBestColumnMatch col columnNames) xs)))"
    for xs
    using assms
    by (auto simp: list_all_iff truthy_def split: option.splits
             dest: findBestColumnMatch_member findBestColumnMatch_member [OF sym])
  then have v: "list_all plainText ?valid" .
  have sep: "plainText '', ''" by (simp add: plainText_def)
  from True have "extractColumns x columnNames = (if length ?valid > 0 then join '', '' ?valid else ''*'')"
    unfolding extractColumns_def Let_def by simp
  moreover have "plainText ''*''" by (simp add: plainText_def)
  moreover from plainText_join [OF sep v] have "plainText (join '', '' ?valid)" .
  ultimately show ?thesis by simp
qed

lemma extractOrderBy_plain:
  assumes cols: "list_all plainText columnNames"
    and "extractOrderBy text columnNames = Inr ob"
  shows "plainText ob"
proof (cases "regexMatch
             (seqs [alts [str ''order by'', str ''sort by''], ws1, Group 1 word1,
                    Opt (seqs [ws1, Group 2 (alts [str ''asc'', str ''desc''])])])
             text")
  case None
  with assms(2) show ?thesis by (simp add: extractOrderBy_def plainText_def)
next
  case (Some orderMatch)
  from match_plain [OF Some, of 2] have "plainText (jsStr (orderMatch 2))"
    by (simp add: regex_eval)
  then have "plainText (if truthy (orderMatch 2) then the (orderMatch 2) else ''asc'')"
    by (auto simp: truthy_def jsStr_def plainText_def split: option.splits)
  then have d: "plainText (toUpperCase (if truthy (orderMatch 2) then the (orderMatch 2) else ''asc''))"
    by (rule toUpperCase_plain)
  from assms(2) Some obtain column where
    r: "resolveCapture (orderMatch 1) columnNames = Inr column"
    and ob: "ob = (case ifColumn column
                     (\<lambda>c. ''ORDER BY '' @ c @ '' '' @
                          toUpperCase (if truthy (orderMatch 2) then the (orderMatch 2) else ''asc'')) of
                    None \<Rightarrow> [] | Some clause \<Rightarrow> clause)"
    by (auto simp: extractOrderBy_def Let_def split: sum.splits)
  show ?thesis
  proof (cases column)
    case None
    with ob show ?thesis by (simp add: ifColumn_def plainText_def)
  next
    case (Some col)
    with r have "plainText col" by (auto dest: resolveCapture_plain [OF _ cols])
    with Some ob d show ?thesis
      by (auto simp: ifColumn_def plainText_append, simp_all add: plainText_def)
  qed
qed

lemma extractLimit_plain: "plainText (jsStr (extractLimit text))"
proof (cases "regexMatch
             (seqs [alts [str ''limit'', str ''first'', str ''top''], ws1,
                    Group 1 (Plus (OneOf [CDigit]))])
             text")
  case None
  then show ?thesis by (simp add: extractLimit_def jsStr_def plainText_def)
next
  case (Some limitMatch)
  from match_plain [OF Some, of 1] have "plainText (jsStr (limitMatch 1))"
    by (simp add: regex_eval)
  with Some show ?thesis by (simp add: extractLimit_def)
qed

lemma extractColumnForAggregate_plain:
  assumes cols: "list_all plainText columnNames"
    and "extractColumnForAggregate text columnNames kws = Inr column"
  shows "plainText (jsStr column)"
proof (cases column)
  case None
  then show ?thesis by (simp add: jsStr_def plainText_def)
next
  case (Some c)
  have "c \<in> set columnNames"
  proof (cases "aggregateKeywordColumn kws text columnNames")
    case (Inl e)
    with assms(2) show ?thesis by (simp add: extractColumnForAggregate_def)
  next
    case (Inr k)
    show ?thesis
    proof (cases k)
      case (Some kc)
      with Inr aggregateKeywordColumn_Inr [of kws "text" columnNames] have "kc \<in> set columnNames"
        by auto
      with Inr Some assms(2) \<open>column = Some c\<close> show ?thesis
        by (simp add: extractColumnForAggregate_def)
    next
      case None
      with Inr assms(2) \<open>column = Some c\<close>
      have "first (numericColumns columnNames) = Some c \<or> first columnNames = Some c"
        by (auto simp: extractColumnForAggregate_def split: if_splits)
      then show ?thesis
      proof
        assume "first (numericColumns columnNames) = Some c"
        from first_numericColumns [OF this] show ?thesis by simp
      next
        assume "first columnNames = Some c"
        then show ?thesis by (auto simp: first_def split: list.splits)
      qed
    qed
  qed
  with cols Some show ?thesis by (auto simp: list_all_iff jsStr_def)
qed

lemma closedSql_addLimit: "closedSql s \<Longrightarrow> closedSql (addLimit s)"
proof -
  assume "closedSql s"
  moreover have "closedSql '' LIMIT 100''" by (simp add: closedSql_simps)
  ultimately have "closedSql (s @ '' LIMIT 100'')" by (rule closedSql_append)
  with \<open>closedSql s\<close> show ?thesis by (simp add: addLimit_def)
qed

lemma conditions_closed:
  "extractWhereConditions text columnNames columnTypes = Inr x \<Longrightarrow> list_all plainText columnNames
   \<Longrightarrow> closedSql (jsNull x) \<and> (truthy x \<longrightarrow> closedSql (the x))"
  by (cases x) (auto simp: jsNull_def truthy_def closedSql_simps dest: extractWhereConditions_closed)

lemma patterns_closed:
  assumes t: "plainText table" and cols: "list_all plainText columnNames"
  shows "list_all (\<lambda>p. \<forall>s. ruleSql p text = Inr s \<longrightarrow> closedSql s)
           (patterns table columnNames columnTypes)"
  unfolding patterns_def list.pred_inject ruleSql_def rule.simps sqlSource.case
  using t extractColumns_plain [OF cols] extractLimit_plain
  by (intro conjI allI impI TrueI)
     (auto split: sum.splits option.splits simp: Let_def closedSql_simps
           dest!: conditions_closed [OF _ cols]
                  extractOrderBy_plain [OF cols] extractColumnForAggregate_plain [OF cols])

lemma tryPatterns_closed:
  "list_all (\<lambda>p. \<forall>s. ruleSql p text = Inr s \<longrightarrow> closedSql s) rules \<Longrightarrow>
   tryPatterns rules lowerText text = Some r \<Longrightarrow> closedSql (sqlQuery r)"
  by (induction rules) (auto split: if_splits sum.splits simp: closedSql_addLimit)

lemma generateSQLFromText_closed:
  assumes t: "plainText table" and cols: "list_all plainText columnNames"
    and r: "generateSQLFromText text table columnNames columnTypes = Inr r"
  shows "closedSql (sqlQuery r)"
proof (cases "tryPatterns (patterns table columnNames columnTypes) (trim (toLowerCase text)) text")
  case (Some q)
  from tryPatterns_closed [OF patterns_closed [OF t cols] Some] Some r show ?thesis
    by (simp add: generateSQLFromText_def)
next
  case None
  with r t show ?thesis
    by (auto simp: generateSQLFromText_def closedSql_simps split: sum.splits if_splits
             dest!: conditions_closed [OF _ cols])
qed

text \<open>
  C10 (as amended).  For every phrase, table name and list of column names the SQL of the
  translation begins with ``SELECT '' and has `` FROM '' and the table name in it.  When
  the table name and the column names are made of letters, digits and underscores, the
  SQL is one statement: no semicolon stands outside a literal in single quotes, so no
  INSERT, UPDATE, DELETE or DDL statement follows the SELECT.
\<close>

theorem generateSQLFromText_select_only:
  "\<exists>r. generateSQLFromText text table columnNames columnTypes = Inr r
       \<and> prefix ''SELECT '' (sqlQuery r)
       \<and> includesStr (sqlQuery r) ('' FROM '' @ table)
       \<and> (list_all isWordChar table \<and> list_all (list_all isWordChar) columnNames
            \<longrightarrow> \<not> bareSemicolon False (sqlQuery r))"
proof -
  from generateSQLFromText_selectFrom [of "text" table columnNames columnTypes]
  obtain r where r: "generateSQLFromText text table columnNames columnTypes = Inr r"
    and s: "selectFrom table (sqlQuery r)"
    by blast
  have "\<not> bareSemicolon False (sqlQuery r)"
    if w: "list_all isWordChar table \<and> list_all (list_all isWordChar) columnNames"
  proof -
    from w have "plainText table" by (simp add: wordChars_plainText)
    moreover from w have "list_all plainText columnNames"
      by (auto simp: list_all_iff intro: wordChars_plainText)
    ultimately have "closedSql (sqlQuery r)"
      using r by (rule generateSQLFromText_closed)
    then show ?thesis by (simp add: closedSql_def)
  qed
  with r s show ?thesis by (auto simp: selectFrom_def)
qed

text \<open>
  A phrase with a semicolon in a value: the semicolon of the translation is inside a
  literal.
\<close>

theorem generateSQLFromText_select_only_witness:
  "list_all isWordChar ''users'' \<and> list_all (list_all isWordChar) [''id'', ''name'']
   \<and> generateSQLFromText ''name is a;b'' ''users'' [''id'', ''name''] Map.empty
       = Inr \<lparr>sqlQuery = ''SELECT * FROM users WHERE name = '' @ [CHR 0x27] @ ''a'' @ [CHR 0x27]
                            @ '' AND name = '' @ [CHR 0x27] @ ''a;b'' @ [CHR 0x27] @ '' LIMIT 100'',
              error = None\<rparr>
   \<and> \<not> bareSemicolon False
         (''SELECT * FROM users WHERE name = '' @ [CHR 0x27] @ ''a'' @ [CHR 0x27]
          @ '' AND name = '' @ [CHR 0x27] @ ''a;b'' @ [CHR 0x27] @ '' LIMIT 100'')"
proof -
  have h: "list_all isWordChar ''users'' \<and> list_all (list_all isWordChar) [''id'', ''name'']"
    by code_simp
  have e: "generateSQLFromText ''name is a;b'' ''users'' [''id'', ''name''] Map.empty
       = Inr \<lparr>sqlQuery = ''SELECT * FROM users WHERE name = '' @ [CHR 0x27] @ ''a'' @ [CHR 0x27]
                            @ '' AND name = '' @ [CHR 0x27] @ ''a;b'' @ [CHR 0x27] @ '' LIMIT 100'',
              error = None\<rparr>"
    by code_simp
  from generateSQLFromText_select_only
         [of "''name is a;b''" "''users''" "[''id'', ''name'']" Map.empty] h e
  have "\<not> bareSemicolon False
         (''SELECT * FROM users WHERE name = '' @ [CHR 0x27] @ ''a'' @ [CHR 0x27]
          @ '' AND name = '' @ [CHR 0x27] @ ''a;b'' @ [CHR 0x27] @ '' LIMIT 100'')"
    by auto
  with h e show ?thesis by (simp only: simp_thms)
qed

text \<open>
  C10 as stated fails on a table name that is not a plain name: the name is put into the
  text as it is, and the text then has a DROP TABLE statement after the SELECT.
\<close>

theorem generateSQLFromText_select_only_counterexample:
  "generateSQLFromText ''everything'' ''t; DROP TABLE x; --'' [''id''] Map.empty
     = Inr \<lparr>sqlQuery = ''SELECT * FROM t; DROP TABLE x; -- LIMIT 100'', error = None\<rparr>
   \<and> bareSemicolon False ''SELECT * FROM t; DROP TABLE x; -- LIMIT 100''
   \<and> includesStr ''SELECT * FROM t; DROP TABLE x; -- LIMIT 100'' ''; DROP TABLE x;''"
  by code_simp

section \<open>The fallback\<close>

lemma tryPatterns_None:
  "list_all (\<lambda>q. \<not> test (pattern q) lowerText) rules \<Longrightarrow> tryPatterns rules lowerText s = None"
  by (induction rules) auto

text \<open>
  C1 (as amended).  For every phrase that matches none of the triggers of the rules and
  from which the WHERE-condition extractor gets no condition, the translation is exactly
  \<open>SELECT * FROM <table> LIMIT 100\<close>, and it carries no warning.
\<close>

theorem generateSQLFromText_fallback:
  assumes "list_all (\<lambda>q. \<not> test (pattern q) (trim (toLowerCase text)))
             (patterns table columnNames columnTypes)"
    and "extractWhereConditions text columnNames columnTypes = Inr None"
  shows "generateSQLFromText text table columnNames columnTypes
           = Inr \<lparr>sqlQuery = ''SELECT * FROM '' @ table @ '' LIMIT 100'', error = None\<rparr>"
  using tryPatterns_None [OF assms(1)] assms(2)
  by (simp add: generateSQLFromText_def truthy_def)

theorem generateSQLFromText_fallback_witness:
  "generateSQLFromText ''hi there'' ''users'' [''id'', ''name''] Map.empty
     = Inr \<lparr>sqlQuery = ''SELECT * FROM users LIMIT 100'', error = None\<rparr>"
proof -
  have h1: "list_all (\<lambda>q. \<not> test (pattern q) (trim (toLowerCase ''hi there'')))
              (patterns ''users'' [''id'', ''name''] Map.empty)"
    by code_simp
  have h2: "extractWhereConditions ''hi there'' [''id'', ''name''] Map.empty = Inr None"
    by code_simp
  from generateSQLFromText_fallback [OF h1 h2] show ?thesis by simp
qed

text \<open>
  C1 as stated fails: ``hello'' matches no trigger and has no condition, and the
  translation carries no warning (the field \<open>error\<close> is not set).
\<close>

theorem generateSQLFromText_fallback_counterexample:
  "list_all (\<lambda>q. \<not> test (pattern q) (trim (toLowerCase ''hello''))) (patterns ''t'' [] Map.empty)
   \<and> extractWhereConditions ''hello'' [] Map.empty = Inr None
   \<and> generateSQLFromText ''hello'' ''t'' [] Map.empty
       = Inr \<lparr>sqlQuery = ''SELECT * FROM t LIMIT 100'', error = None\<rparr>"
  by code_simp

section \<open>An example of the specification\<close>

text \<open>
  C7.  For the phrase ``users where age greater than 20'', the table \<open>users\<close> and the
  columns \<open>id\<close>, \<open>name\<close>, \<open>age\<close> the translation is exactly
  \<open>SELECT * FROM users WHERE age > 20 LIMIT 100\<close>.
\<close>

theorem generateSQLFromText_age_example:
  "generateSQLFromText ''users where age greater than 20'' ''users'' [''id'', ''name'', ''age'']
     columnTypes
     = Inr \<lparr>sqlQuery = ''SELECT * FROM users WHERE age > 20 LIMIT 100'', error = None\<rparr>"
  by code_simp


end
